theory Spec2Isabelle
  imports Main
begin

section \<open>The bencoding decoder of \<^verbatim>\<open>src/bencoding.py\<close>\<close>

text \<open>
  The class \<^verbatim>\<open>Decoder\<close> is a recursive-descent parser with one character of lookahead.
  Its three fields \<^verbatim>\<open>_data\<close>, \<^verbatim>\<open>_index\<close> and \<^verbatim>\<open>_char\<close> become a record that every
  method takes and returns; every \<^verbatim>\<open>raise\<close> becomes the left injection of a sum type.

  Conventions of the embedding:
  \<^item> A Python \<^verbatim>\<open>bytes\<close> object is a \<^typ>\<open>char list\<close>: an Isabelle \<^typ>\<open>char\<close> is one byte.
    The one-character string \<^verbatim>\<open>chr(b)\<close> of a byte \<^verbatim>\<open>b\<close> is written as the same \<^typ>\<open>char\<close>,
    and the lookahead \<^verbatim>\<open>_char\<close> is a \<^typ>\<open>char option\<close> with \<^verbatim>\<open>None\<close> as \<^term>\<open>None\<close>.
  \<^item> A Python \<^verbatim>\<open>dict\<close> keeps its keys in insertion order, and an assignment to a key that is
    present keeps the key's position: it is an association list, updated by \<open>dict_set\<close>.
  \<^item> The argument of \<^verbatim>\<open>decode\<close> is taken to be a \<^verbatim>\<open>bytes\<close> object, so the \<^verbatim>\<open>TypeError\<close>
    of the constructor is excluded by the type of the model.
  \<^item> Python integers are unbounded: \<^typ>\<open>int\<close> and \<^typ>\<open>nat\<close>. The limits of an interpreter
    (recursion depth, the length of a digit string that \<^verbatim>\<open>int\<close> converts) are not modelled.
  \<^item> \<^verbatim>\<open>decode\<close> is a static method that builds a cursor of its own and reads no other
    object, so it is written as a function of the bytes. That two calls on the same bytes
    agree, and that no other state is touched, is this convention and not a theorem below.
\<close>

subsection \<open>Values and errors\<close>

datatype bencoded =
    BBytes "char list"
  | BInt int
  | BList "bencoded list"
  | BDict "(char list \<times> bencoded) list"

text \<open>The messages of the \<^verbatim>\<open>ValueError\<close>s the source raises, one constructor per \<^verbatim>\<open>raise\<close>
  statement text. \<open>Expected c i got\<close> is the message of \<^verbatim>\<open>_consume\<close>, which reports the
  expected character, the position and the lookahead found.\<close>

datatype message =
    Empty_data
  | Extra_data
  | Expected char nat "char option"
  | Not_bencoding
  | Unexpected_end_dict
  | Unexpected_end_list
  | Negative_zero
  | Leading_zeros
  | No_digit

text \<open>\<open>IndexError\<close> is the exception of the interpreter for \<^verbatim>\<open>self._data[self._index]\<close> with
  an index beyond the buffer; the source has no \<^verbatim>\<open>raise\<close> for it.\<close>

datatype error = ValueError message | IndexError

record decoder =
  data :: "char list"
  index :: nat
  char :: "char option"

subsection \<open>Helpers of the language\<close>

text \<open>\<^verbatim>\<open>str.isdigit\<close> on a one-character string made by \<^verbatim>\<open>chr\<close> of a byte: true for the ten
  ASCII digits and for the three superscript digits of Latin-1 (code points B2, B3 and B9).\<close>

definition isdigit :: "char \<Rightarrow> bool" where
  "isdigit c \<longleftrightarrow> c \<in> set ''0123456789'' \<or> c = CHR 0xB2 \<or> c = CHR 0xB3 \<or> c = CHR 0xB9"

text \<open>The test \<^verbatim>\<open>self._char and self._char.isdigit()\<close>: a one-character string is truthy, so
  the first conjunct only excludes \<^verbatim>\<open>None\<close>.\<close>

definition char_isdigit :: "char option \<Rightarrow> bool" where
  "char_isdigit c = (case c of None \<Rightarrow> False | Some x \<Rightarrow> isdigit x)"

text \<open>\<^verbatim>\<open>str(num)\<close> for \<^verbatim>\<open>num\<close> in \<^verbatim>\<open>range(10)\<close>, the only arguments the source gives it.\<close>

definition str :: "nat \<Rightarrow> char" where
  "str num = char_of (48 + num)"

text \<open>\<^verbatim>\<open>int(num)\<close> on a non-empty string of ASCII digits, read from the left.\<close>

fun int_of_str :: "nat \<Rightarrow> char list \<Rightarrow> nat" where
  "int_of_str acc [] = acc"
| "int_of_str acc (c # cs) = int_of_str (10 * acc + (of_char c - 48)) cs"

text \<open>\<^verbatim>\<open>dictionary[key] = value\<close>.\<close>

definition dict_set ::
  "(char list \<times> bencoded) list \<Rightarrow> char list \<Rightarrow> bencoded \<Rightarrow> (char list \<times> bencoded) list" where
  "dict_set dictionary key val =
     (if key \<in> fst ` set dictionary
      then map (\<lambda>(k, v). if k = key then (k, val) else (k, v)) dictionary
      else dictionary @ [(key, val)])"

subsection \<open>The cursor\<close>

text \<open>\<^verbatim>\<open>Decoder.__init__\<close>.\<close>

definition Decoder :: "char list \<Rightarrow> error + decoder" where
  "Decoder bencoded_data =
     (if bencoded_data = [] then Inl (ValueError Empty_data)
      else Inr \<lparr>data = bencoded_data, index = 0, char = Some (bencoded_data ! 0)\<rparr>)"

definition consume :: "char \<Rightarrow> decoder \<Rightarrow> error + decoder" where
  "consume expected_char s =
     (if char s = Some expected_char then
        Inr (s\<lparr>index := index s + 1,
               char := (if index s + 1 < length (data s)
                        then Some (data s ! (index s + 1)) else None)\<rparr>)
      else Inl (ValueError (Expected expected_char (index s) (char s))))"

text \<open>\<^verbatim>\<open>_decode_char\<close> reads \<^verbatim>\<open>self._data[self._index]\<close> first; the index is never negative,
  so the read raises \<^verbatim>\<open>IndexError\<close> exactly when the index is not below the length.\<close>

definition decode_char :: "decoder \<Rightarrow> error + (char \<times> decoder)" where
  "decode_char s =
     (if index s < length (data s) then
        Inr (data s ! index s,
             s\<lparr>index := index s + 1,
               char := (if index s + 1 < length (data s)
                        then Some (data s ! (index s + 1)) else None)\<rparr>)
      else Inl IndexError)"

subsection \<open>Digits, numbers, integers and strings\<close>

text \<open>The \<^verbatim>\<open>for num in range(10)\<close> loop of \<^verbatim>\<open>_decode_digit\<close>, over the numbers still to try.\<close>

fun decode_digit_range :: "nat list \<Rightarrow> decoder \<Rightarrow> error + (nat \<times> decoder)" where
  "decode_digit_range [] s = Inl (ValueError Not_bencoding)"
| "decode_digit_range (num # nums) s =
     (if char s = Some (str num) then
        (case consume (str num) s of Inl e \<Rightarrow> Inl e | Inr s' \<Rightarrow> Inr (num, s'))
      else decode_digit_range nums s)"

definition decode_digit :: "decoder \<Rightarrow> error + (nat \<times> decoder)" where
  "decode_digit s = decode_digit_range [0..<10] s"

text \<open>A bound on the work left, for the termination proofs: every \<open>consume\<close> lowers it and
  no operation raises it, whatever the three fields hold.\<close>

definition budget :: "decoder \<Rightarrow> nat" where
  "budget s = (if char s = None then 0 else 1) + (length (data s) - index s)"

lemma consume_budget: "consume c s = Inr s' \<Longrightarrow> budget s' < budget s"
  by (auto simp: consume_def budget_def split: if_splits)

lemma decode_char_budget: "decode_char s = Inr (b, s') \<Longrightarrow> budget s' \<le> budget s"
  by (auto simp: decode_char_def budget_def split: if_splits)

lemma decode_digit_range_budget:
  "decode_digit_range ns s = Inr (d, s') \<Longrightarrow> budget s' < budget s"
  by (induction ns) (auto split: if_splits sum.splits dest: consume_budget)

lemma decode_digit_budget: "decode_digit s = Inr (d, s') \<Longrightarrow> budget s' < budget s"
  unfolding decode_digit_def by (rule decode_digit_range_budget)

text \<open>The \<^verbatim>\<open>while\<close> loop of \<^verbatim>\<open>_decode_num\<close>, with the string \<^verbatim>\<open>num\<close> read so far.\<close>

function decode_digits :: "char list \<Rightarrow> decoder \<Rightarrow> error + (char list \<times> decoder)" where
  "decode_digits num s =
     (if char_isdigit (char s) then
        (case decode_digit s of
           Inl e \<Rightarrow> Inl e
         | Inr (d, s') \<Rightarrow> decode_digits (num @ [str d]) s')
      else Inr (num, s))"
  by pat_completeness auto
termination
  by (relation "measure (\<lambda>(num, s). budget s)") (auto dest: decode_digit_budget)

declare decode_digits.simps [simp del]

definition decode_num :: "decoder \<Rightarrow> error + (int \<times> decoder)" where
  "decode_num s =
     (case (if char s = Some CHR ''0'' then
              (case decode_digit s of
                 Inl e \<Rightarrow> Inl e
               | Inr (d, s') \<Rightarrow>
                   if char_isdigit (char s') then Inl (ValueError Leading_zeros)
                   else Inr ([str d], s'))
            else decode_digits [] s) of
        Inl e \<Rightarrow> Inl e
      | Inr (num, s') \<Rightarrow>
          if num = [] then Inl (ValueError No_digit)
          else Inr (int (int_of_str 0 num), s'))"

definition decode_snum :: "decoder \<Rightarrow> error + (int \<times> decoder)" where
  "decode_snum s =
     (if char_isdigit (char s) then decode_num s
      else if char s = Some CHR ''-'' then
        (case consume CHR ''-'' s of
           Inl e \<Rightarrow> Inl e
         | Inr s1 \<Rightarrow>
             if char s1 = Some CHR ''0'' then Inl (ValueError Negative_zero)
             else (case decode_num s1 of
                     Inl e \<Rightarrow> Inl e
                   | Inr (n, s2) \<Rightarrow> Inr (- n, s2)))
      else Inl (ValueError Not_bencoding))"

definition decode_int :: "decoder \<Rightarrow> error + (int \<times> decoder)" where
  "decode_int s =
     (case consume CHR ''i'' s of
        Inl e \<Rightarrow> Inl e
      | Inr s1 \<Rightarrow>
          (case decode_snum s1 of
             Inl e \<Rightarrow> Inl e
           | Inr (val, s2) \<Rightarrow>
               (case consume CHR ''e'' s2 of
                  Inl e \<Rightarrow> Inl e
                | Inr s3 \<Rightarrow> Inr (val, s3))))"

text \<open>The \<^verbatim>\<open>for _ in range(num)\<close> loop of \<^verbatim>\<open>_decode_str\<close>, with the bytes read so far.\<close>

fun decode_chars :: "nat \<Rightarrow> char list \<Rightarrow> decoder \<Rightarrow> error + (char list \<times> decoder)" where
  "decode_chars 0 byte_data s = Inr (byte_data, s)"
| "decode_chars (Suc n) byte_data s =
     (case decode_char s of
        Inl e \<Rightarrow> Inl e
      | Inr (byte_val, s') \<Rightarrow> decode_chars n (byte_data @ [byte_val]) s')"

definition decode_str :: "decoder \<Rightarrow> error + (char list \<times> decoder)" where
  "decode_str s =
     (case decode_num s of
        Inl e \<Rightarrow> Inl e
      | Inr (num, s1) \<Rightarrow>
          (case consume CHR '':'' s1 of
             Inl e \<Rightarrow> Inl e
           | Inr s2 \<Rightarrow> decode_chars (nat num) [] s2))"

lemma decode_digits_budget:
  "decode_digits num s = Inr (num', s') \<Longrightarrow> budget s' \<le> budget s"
proof (induction num s rule: decode_digits.induct)
  case (1 num s)
  then show ?case
    by (subst (asm) (2) decode_digits.simps)
       (fastforce split: if_splits sum.splits dest!: decode_digit_budget)
qed

lemma decode_num_budget: "decode_num s = Inr (n, s') \<Longrightarrow> budget s' \<le> budget s"
  by (auto simp: decode_num_def split: if_splits sum.splits
      dest!: decode_digit_budget decode_digits_budget)

lemma decode_chars_budget:
  "decode_chars n acc s = Inr (b, s') \<Longrightarrow> budget s' \<le> budget s"
proof (induction n arbitrary: acc s)
  case 0
  then show ?case by simp
next
  case (Suc n)
  from Suc.prems obtain c s1 where c: "decode_char s = Inr (c, s1)"
    and r: "decode_chars n (acc @ [c]) s1 = Inr (b, s')"
    by (auto split: sum.splits)
  from Suc.IH [OF r] decode_char_budget [OF c] show ?case by simp
qed

lemma decode_str_budget: "decode_str s = Inr (b, s') \<Longrightarrow> budget s' < budget s"
  by (auto simp: decode_str_def split: sum.splits
      dest!: decode_num_budget consume_budget decode_chars_budget)

lemma decode_snum_budget: "decode_snum s = Inr (n, s') \<Longrightarrow> budget s' \<le> budget s"
  by (fastforce simp: decode_snum_def split: if_splits sum.splits
      dest!: decode_num_budget consume_budget)

lemma decode_int_budget: "decode_int s = Inr (n, s') \<Longrightarrow> budget s' < budget s"
  by (fastforce simp: decode_int_def split: sum.splits
      dest!: decode_snum_budget consume_budget)

subsection \<open>Values, dictionaries and lists\<close>

text \<open>\<^verbatim>\<open>_decode_bencode\<close>, \<^verbatim>\<open>_decode_dict\<close> and \<^verbatim>\<open>_decode_list\<close> call each other. Each
  \<^verbatim>\<open>while True\<close> loop is a function of its own that takes the container built so far and
  returns it at the \<^verbatim>\<open>break\<close>.\<close>

function decode_bencode :: "decoder \<Rightarrow> error + (bencoded \<times> decoder)"
  and decode_dict :: "decoder \<Rightarrow> error + ((char list \<times> bencoded) list \<times> decoder)"
  and decode_dict_loop ::
    "(char list \<times> bencoded) list \<Rightarrow> decoder \<Rightarrow> error + ((char list \<times> bencoded) list \<times> decoder)"
  and decode_list :: "decoder \<Rightarrow> error + (bencoded list \<times> decoder)"
  and decode_list_loop :: "bencoded list \<Rightarrow> decoder \<Rightarrow> error + (bencoded list \<times> decoder)"
where
  "decode_bencode s =
     (if char s = Some CHR ''d'' then
        (case decode_dict s of Inl e \<Rightarrow> Inl e | Inr (val, s') \<Rightarrow> Inr (BDict val, s'))
      else if char s = Some CHR ''l'' then
        (case decode_list s of Inl e \<Rightarrow> Inl e | Inr (val, s') \<Rightarrow> Inr (BList val, s'))
      else if char s = Some CHR ''i'' then
        (case decode_int s of Inl e \<Rightarrow> Inl e | Inr (val, s') \<Rightarrow> Inr (BInt val, s'))
      else if char_isdigit (char s) then
        (case decode_str s of Inl e \<Rightarrow> Inl e | Inr (val, s') \<Rightarrow> Inr (BBytes val, s'))
      else Inl (ValueError Not_bencoding))"
| "decode_dict s =
     (case consume CHR ''d'' s of
        Inl e \<Rightarrow> Inl e
      | Inr s1 \<Rightarrow>
          (case decode_dict_loop [] s1 of
             Inl e \<Rightarrow> Inl e
           | Inr (dictionary, s2) \<Rightarrow>
               (case consume CHR ''e'' s2 of
                  Inl e \<Rightarrow> Inl e
                | Inr s3 \<Rightarrow> Inr (dictionary, s3))))"
| "decode_dict_loop dictionary s =
     (if char s = None then Inl (ValueError Unexpected_end_dict)
      else
        (case decode_str s of
           Inl e \<Rightarrow> Inl e
         | Inr (key, s1) \<Rightarrow>
             (case decode_bencode s1 of
                Inl e \<Rightarrow> Inl e
              | Inr (val, s2) \<Rightarrow>
                  if char s2 = Some CHR ''e'' then Inr (dict_set dictionary key val, s2)
                  else decode_dict_loop (dict_set dictionary key val) s2)))"
| "decode_list s =
     (case consume CHR ''l'' s of
        Inl e \<Rightarrow> Inl e
      | Inr s1 \<Rightarrow>
          (case decode_list_loop [] s1 of
             Inl e \<Rightarrow> Inl e
           | Inr (b_list, s2) \<Rightarrow>
               (case consume CHR ''e'' s2 of
                  Inl e \<Rightarrow> Inl e
                | Inr s3 \<Rightarrow> Inr (b_list, s3))))"
| "decode_list_loop b_list s =
     (if char s = None then Inl (ValueError Unexpected_end_list)
      else
        (case decode_bencode s of
           Inl e \<Rightarrow> Inl e
         | Inr (val, s1) \<Rightarrow>
             if char s1 = Some CHR ''e'' then Inr (b_list @ [val], s1)
             else decode_list_loop (b_list @ [val]) s1))"
  by pat_completeness auto

text \<open>Termination: a loop calls itself on the cursor that an inner call returned, so the
  proof needs that a call which returns has lowered the budget. This is shown first on the
  domain of the functions.\<close>

lemma decode_budget_partial:
  "decode_bencode_decode_dict_decode_dict_loop_decode_list_decode_list_loop_dom (Inl (Inl s)) \<Longrightarrow>
     \<forall>v s'. decode_bencode s = Inr (v, s') \<longrightarrow> budget s' < budget s"
  "decode_bencode_decode_dict_decode_dict_loop_decode_list_decode_list_loop_dom (Inl (Inr s2)) \<Longrightarrow>
     \<forall>v s'. decode_dict s2 = Inr (v, s') \<longrightarrow> budget s' < budget s2"
  "decode_bencode_decode_dict_decode_dict_loop_decode_list_decode_list_loop_dom (Inr (Inl (d, s3))) \<Longrightarrow>
     \<forall>v s'. decode_dict_loop d s3 = Inr (v, s') \<longrightarrow> budget s' < budget s3"
  "decode_bencode_decode_dict_decode_dict_loop_decode_list_decode_list_loop_dom (Inr (Inr (Inl s4))) \<Longrightarrow>
     \<forall>v s'. decode_list s4 = Inr (v, s') \<longrightarrow> budget s' < budget s4"
  "decode_bencode_decode_dict_decode_dict_loop_decode_list_decode_list_loop_dom (Inr (Inr (Inr (l, s5)))) \<Longrightarrow>
     \<forall>v s'. decode_list_loop l s5 = Inr (v, s') \<longrightarrow> budget s' < budget s5"
proof (induct rule: decode_bencode_decode_dict_decode_dict_loop_decode_list_decode_list_loop.pinduct)
  case (1 s)
  then show ?case
    by (auto simp: decode_bencode.psimps split: if_splits sum.splits
        dest!: decode_str_budget decode_int_budget)
next
  case (2 s)
  then show ?case
    by (fastforce simp: decode_dict.psimps split: sum.splits dest!: consume_budget)
next
  case (3 dictionary s)
  then show ?case
    by (fastforce simp: decode_dict_loop.psimps split: if_splits sum.splits
        dest!: decode_str_budget)
next
  case (4 s)
  then show ?case
    by (fastforce simp: decode_list.psimps split: sum.splits dest!: consume_budget)
next
  case (5 b_list s)
  then show ?case
    by (fastforce simp: decode_list_loop.psimps split: if_splits sum.splits)
qed

termination decode_bencode
  apply (relation "measure (\<lambda>x. case x of
            Inl (Inl s) \<Rightarrow> 3 * budget s + 1
          | Inl (Inr s) \<Rightarrow> 3 * budget s
          | Inr (Inl (d, s)) \<Rightarrow> 3 * budget s + 2
          | Inr (Inr (Inl s)) \<Rightarrow> 3 * budget s
          | Inr (Inr (Inr (l, s))) \<Rightarrow> 3 * budget s + 2)")
          apply simp_all
  subgoal for s b using consume_budget [of "CHR ''d''" s b] by simp
  subgoal for s b x y using decode_str_budget [of s x y] by auto
  subgoal for s b x y ba xa ya
    using decode_str_budget [of s x y] decode_budget_partial(1) [of y] by fastforce
  subgoal for s b using consume_budget [of "CHR ''l''" s b] by simp
  subgoal for s b x y using decode_budget_partial(1) [of s] by fastforce
  done

declare decode_bencode.simps [simp del] decode_dict.simps [simp del]
  decode_dict_loop.simps [simp del] decode_list.simps [simp del]
  decode_list_loop.simps [simp del]

subsection \<open>The entry point\<close>

text \<open>\<^verbatim>\<open>Decoder.decode\<close>: build the cursor, decode one value, and refuse what is left.\<close>

definition decode :: "char list \<Rightarrow> error + bencoded" where
  "decode bencoded_data =
     (case Decoder bencoded_data of
        Inl e \<Rightarrow> Inl e
      | Inr decoder \<Rightarrow>
          (case decode_bencode decoder of
             Inl e \<Rightarrow> Inl e
           | Inr (result, decoder') \<Rightarrow>
               if char decoder' \<noteq> None then Inl (ValueError Extra_data)
               else Inr result))"

section \<open>Notions used to state the properties\<close>

text \<open>The invariant of the cursor: the index is within the buffer, and the stored lookahead is
  the byte at the index, or \<^term>\<open>None\<close> when the index is the length of the buffer.\<close>

definition cursor_inv :: "decoder \<Rightarrow> bool" where
  "cursor_inv s \<longleftrightarrow>
     index s \<le> length (data s) \<and>
     char s = (if index s < length (data s) then Some (data s ! index s) else None)"

text \<open>The cursor over \<open>bs\<close> at position \<open>i\<close>, with its lookahead derived from the two.\<close>

definition cursor_at :: "char list \<Rightarrow> nat \<Rightarrow> decoder" where
  "cursor_at bs i = \<lparr>data = bs, index = i, char = (if i < length bs then Some (bs ! i) else None)\<rparr>"

text \<open>The cursor \<open>s\<close> moved into a longer buffer, which has \<open>pre\<close> before the bytes of \<open>s\<close> and
  \<open>post\<close> after them.\<close>

definition embed :: "char list \<Rightarrow> char list \<Rightarrow> decoder \<Rightarrow> decoder" where
  "embed pre post s =
     \<lparr>data = pre @ data s @ post,
      index = length pre + index s,
      char = (if index s < length (data s @ post) then Some ((data s @ post) ! index s) else None)\<rparr>"

text \<open>No list and no dictionary inside the value is empty.\<close>

fun nonempty_containers :: "bencoded \<Rightarrow> bool" where
  "nonempty_containers (BBytes b) = True"
| "nonempty_containers (BInt n) = True"
| "nonempty_containers (BList xs) = (xs \<noteq> [] \<and> list_all nonempty_containers xs)"
| "nonempty_containers (BDict ps) = (ps \<noteq> [] \<and> list_all (\<lambda>p. nonempty_containers (snd p)) ps)"

text \<open>The inputs that end inside a container where an iteration of its loop starts: an \<open>l\<close>
  followed by complete elements, a \<open>d\<close> followed by complete pairs of a key and a value, or
  one of these followed, in the place of an element or of a value, by such an input again. An
  element, a key or a value is complete when \<open>decode\<close> accepts its bytes. The message is the
  one of the innermost container.\<close>

inductive unterminated :: "char list \<Rightarrow> message \<Rightarrow> bool" where
  list_end:
    "\<forall>b\<in>set bss. \<exists>v. decode b = Inr v \<Longrightarrow>
     unterminated (''l'' @ concat bss) Unexpected_end_list"
| dict_end:
    "\<forall>(k, b)\<in>set kbs. (\<exists>key. decode k = Inr (BBytes key)) \<and> (\<exists>v. decode b = Inr v) \<Longrightarrow>
     unterminated (''d'' @ concat (map (\<lambda>(k, b). k @ b) kbs)) Unexpected_end_dict"
| in_list:
    "\<forall>b\<in>set bss. \<exists>v. decode b = Inr v \<Longrightarrow> unterminated x m \<Longrightarrow>
     unterminated (''l'' @ concat bss @ x) m"
| in_dict:
    "\<forall>(k, b)\<in>set kbs. (\<exists>key. decode k = Inr (BBytes key)) \<and> (\<exists>v. decode b = Inr v) \<Longrightarrow>
     decode k' = Inr (BBytes key') \<Longrightarrow> unterminated x m \<Longrightarrow>
     unterminated (''d'' @ concat (map (\<lambda>(k, b). k @ b) kbs) @ k' @ x) m"

text \<open>The bytes \<open>(k, b)\<close> of a key and of a value decode to the pair \<open>(key, v)\<close>.\<close>

definition encodes_pair :: "char list \<times> char list \<Rightarrow> char list \<times> bencoded \<Rightarrow> bool" where
  "encodes_pair kb p \<longleftrightarrow>
     decode (fst kb) = Inr (BBytes (fst p)) \<and> decode (snd kb) = Inr (snd p)"

text \<open>The position that an error of \<^verbatim>\<open>_consume\<close> reports is a position of the buffer at or
  after the cursor \<open>s\<close>, the lookahead it reports is the one of that position, and it is not the
  expected character. The other errors carry no position.\<close>

definition offset_ok :: "decoder \<Rightarrow> error \<Rightarrow> bool" where
  "offset_ok s e \<longleftrightarrow>
     (case e of
        ValueError (Expected c i got) \<Rightarrow>
          index s \<le> i \<and> i \<le> length (data s) \<and>
          got = (if i < length (data s) then Some (data s ! i) else None) \<and> got \<noteq> Some c
      | _ \<Rightarrow> True)"

section \<open>Decoding the examples of the format\<close>


lemma decode_three: "decode ''i3e'' = Inr (BInt 3)"
  by code_simp


lemma decode_spam_eggs:
  "decode ''l4:spam4:eggse'' = Inr (BList [BBytes ''spam'', BBytes ''eggs''])"
  by code_simp


section \<open>The cursor keeps its invariant\<close>

lemma cursor_inv_None: "cursor_inv s \<Longrightarrow> char s = None \<longleftrightarrow> index s = length (data s)"
  by (auto simp: cursor_inv_def)

lemma cursor_inv_Some: "cursor_inv s \<Longrightarrow> char s = Some c \<Longrightarrow> index s < length (data s) \<and> data s ! index s = c"
  by (auto simp: cursor_inv_def split: if_splits)

lemma Decoder_inv:
  "Decoder bs = Inr s \<Longrightarrow> cursor_inv s \<and> data s = bs \<and> index s = 0"
  by (auto simp: Decoder_def cursor_inv_def split: if_splits)

lemma consume_inv:
  "cursor_inv s \<Longrightarrow> consume c s = Inr s' \<Longrightarrow>
     cursor_inv s' \<and> data s' = data s \<and> index s' = index s + 1"
  by (auto simp: consume_def cursor_inv_def split: if_splits)

lemma decode_char_inv:
  "cursor_inv s \<Longrightarrow> decode_char s = Inr (b, s') \<Longrightarrow>
     cursor_inv s' \<and> data s' = data s \<and> index s' = index s + 1 \<and> b = data s ! index s"
  by (auto simp: decode_char_def cursor_inv_def split: if_splits)

lemma decode_digit_range_Inr:
  "decode_digit_range ns s = Inr (d, s') \<Longrightarrow> d \<in> set ns \<and> char s = Some (str d) \<and> consume (str d) s = Inr s'"
  by (induction ns) (auto split: if_splits sum.splits)

lemma decode_digit_Inr:
  "decode_digit s = Inr (d, s') \<Longrightarrow> d < 10 \<and> char s = Some (str d) \<and> consume (str d) s = Inr s'"
  unfolding decode_digit_def by (drule decode_digit_range_Inr) auto

lemma decode_digit_inv:
  "cursor_inv s \<Longrightarrow> decode_digit s = Inr (d, s') \<Longrightarrow>
     cursor_inv s' \<and> data s' = data s \<and> index s' = index s + 1"
  by (auto dest!: decode_digit_Inr dest: consume_inv)

lemma decode_digits_inv:
  "cursor_inv s \<Longrightarrow> decode_digits num s = Inr (num', s') \<Longrightarrow>
     cursor_inv s' \<and> data s' = data s \<and> index s' + length num = index s + length num'"
proof (induction num s rule: decode_digits.induct)
  case (1 num s)
  show ?case
  proof (cases "char_isdigit (char s)")
    case True
    with "1.prems"(2) obtain d s1 where d: "decode_digit s = Inr (d, s1)"
      and r: "decode_digits (num @ [str d]) s1 = Inr (num', s')"
      by (subst (asm) decode_digits.simps) (auto split: sum.splits)
    from decode_digit_inv [OF "1.prems"(1) d] "1.IH" [OF True d refl _ r]
    show ?thesis by auto
  next
    case False
    with "1.prems" show ?thesis
      by (subst (asm) decode_digits.simps) auto
  qed
qed

lemma decode_num_inv:
  "cursor_inv s \<Longrightarrow> decode_num s = Inr (n, s') \<Longrightarrow>
     cursor_inv s' \<and> data s' = data s \<and> index s < index s'"
  by (fastforce simp: decode_num_def split: if_splits sum.splits
      dest: decode_digit_inv decode_digits_inv)

lemma decode_snum_inv:
  "cursor_inv s \<Longrightarrow> decode_snum s = Inr (n, s') \<Longrightarrow>
     cursor_inv s' \<and> data s' = data s \<and> index s < index s'"
  by (fastforce simp: decode_snum_def split: if_splits sum.splits
      dest: decode_num_inv consume_inv)

lemma decode_int_inv:
  "cursor_inv s \<Longrightarrow> decode_int s = Inr (n, s') \<Longrightarrow>
     cursor_inv s' \<and> data s' = data s \<and> index s < index s'"
  by (fastforce simp: decode_int_def split: if_splits sum.splits
      dest: decode_snum_inv consume_inv)

lemma decode_chars_inv:
  "cursor_inv s \<Longrightarrow> decode_chars n acc s = Inr (b, s') \<Longrightarrow>
     cursor_inv s' \<and> data s' = data s \<and> index s' = index s + n \<and>
     b = acc @ take n (drop (index s) (data s))"
proof (induction n arbitrary: acc s)
  case 0
  then show ?case by simp
next
  case (Suc n)
  from Suc.prems(2) obtain c s1 where c: "decode_char s = Inr (c, s1)"
    and r: "decode_chars n (acc @ [c]) s1 = Inr (b, s')"
    by (auto split: sum.splits)
  from decode_char_inv [OF Suc.prems(1) c]
  have s1: "cursor_inv s1" "data s1 = data s" "index s1 = index s + 1" "c = data s ! index s"
    by auto
  from c have lt: "index s < length (data s)"
    by (auto simp: decode_char_def split: if_splits)
  from Suc.IH [OF s1(1) r] s1 lt show ?case
    by (auto simp: take_Suc_conv_app_nth Cons_nth_drop_Suc [symmetric])
qed

lemma decode_str_inv:
  "cursor_inv s \<Longrightarrow> decode_str s = Inr (b, s') \<Longrightarrow>
     cursor_inv s' \<and> data s' = data s \<and> index s < index s'"
  by (fastforce simp: decode_str_def split: if_splits sum.splits
      dest: decode_num_inv consume_inv decode_chars_inv)

lemma decode_inv:
  "cursor_inv s \<Longrightarrow> decode_bencode s = Inr (v, s') \<Longrightarrow>
     cursor_inv s' \<and> data s' = data s \<and> index s < index s'"
  "cursor_inv s2 \<Longrightarrow> decode_dict s2 = Inr (dv, s2') \<Longrightarrow>
     cursor_inv s2' \<and> data s2' = data s2 \<and> index s2 < index s2'"
  "cursor_inv s3 \<Longrightarrow> decode_dict_loop d s3 = Inr (dv3, s3') \<Longrightarrow>
     cursor_inv s3' \<and> data s3' = data s3 \<and> index s3 < index s3' \<and> char s3' = Some CHR ''e''"
  "cursor_inv s4 \<Longrightarrow> decode_list s4 = Inr (lv, s4') \<Longrightarrow>
     cursor_inv s4' \<and> data s4' = data s4 \<and> index s4 < index s4'"
  "cursor_inv s5 \<Longrightarrow> decode_list_loop l s5 = Inr (lv5, s5') \<Longrightarrow>
     cursor_inv s5' \<and> data s5' = data s5 \<and> index s5 < index s5' \<and> char s5' = Some CHR ''e''"
proof (induct s and s2 and d s3 and s4 and l s5 arbitrary: v s' and dv s2' and dv3 s3' and lv s4' and lv5 s5'
    rule: decode_bencode_decode_dict_decode_dict_loop_decode_list_decode_list_loop.induct)
  case (1 s)
  show ?case
  proof (cases "char s = Some CHR ''d''")
    case True
    with "1.prems"(2) obtain dv where "decode_dict s = Inr (dv, s')"
      by (subst (asm) decode_bencode.simps) (auto split: sum.splits)
    from "1.hyps"(1) [OF True "1.prems"(1) this] show ?thesis .
  next
    case nd: False
    show ?thesis
    proof (cases "char s = Some CHR ''l''")
      case True
      with "1.prems"(2) obtain lv where "decode_list s = Inr (lv, s')"
        by (subst (asm) decode_bencode.simps) (auto split: sum.splits)
      from "1.hyps"(2) [OF nd True "1.prems"(1) this] show ?thesis .
    next
      case False
      with nd "1.prems" show ?thesis
        by (subst (asm) decode_bencode.simps)
           (auto split: if_splits sum.splits dest: decode_int_inv decode_str_inv)
    qed
  qed
next
  case (2 s)
  from "2.prems"(2) obtain s1 s2 where a: "consume CHR ''d'' s = Inr s1"
    and b: "decode_dict_loop [] s1 = Inr (dv, s2)" and c: "consume CHR ''e'' s2 = Inr s2'"
    by (subst (asm) decode_dict.simps) (auto split: sum.splits)
  from consume_inv [OF "2.prems"(1) a] have s1: "cursor_inv s1" "data s1 = data s" "index s1 = index s + 1"
    by auto
  from "2.hyps" [OF a s1(1) b] consume_inv [OF _ c] s1 show ?case by auto
next
  case (3 dictionary s)
  from "3.prems"(2) obtain key s1 val s2 where ne: "char s \<noteq> None"
    and a: "decode_str s = Inr (key, s1)" and b: "decode_bencode s1 = Inr (val, s2)"
    and c: "if char s2 = Some CHR ''e'' then dv3 = dict_set dictionary key val \<and> s3' = s2
            else decode_dict_loop (dict_set dictionary key val) s2 = Inr (dv3, s3')"
    by (subst (asm) decode_dict_loop.simps) (auto split: sum.splits if_splits)
  from decode_str_inv [OF "3.prems"(1) a] have s1: "cursor_inv s1" "data s1 = data s" "index s < index s1"
    by auto
  from "3.hyps"(1) [OF ne a refl s1(1) b] have s2: "cursor_inv s2" "data s2 = data s1" "index s1 < index s2"
    by auto
  show ?case
  proof (cases "char s2 = Some CHR ''e''")
    case True
    with c s1 s2 show ?thesis by auto
  next
    case False
    with c have r: "decode_dict_loop (dict_set dictionary key val) s2 = Inr (dv3, s3')" by simp
    from "3.hyps"(2) [OF ne a refl b refl False s2(1) r] s1 s2 show ?thesis by auto
  qed
next
  case (4 s)
  from "4.prems"(2) obtain s1 s2 where a: "consume CHR ''l'' s = Inr s1"
    and b: "decode_list_loop [] s1 = Inr (lv, s2)" and c: "consume CHR ''e'' s2 = Inr s4'"
    by (subst (asm) decode_list.simps) (auto split: sum.splits)
  from consume_inv [OF "4.prems"(1) a] have s1: "cursor_inv s1" "data s1 = data s" "index s1 = index s + 1"
    by auto
  from "4.hyps" [OF a s1(1) b] consume_inv [OF _ c] s1 show ?case by auto
next
  case (5 b_list s)
  from "5.prems"(2) obtain val s1 where ne: "char s \<noteq> None"
    and b: "decode_bencode s = Inr (val, s1)"
    and c: "if char s1 = Some CHR ''e'' then lv5 = b_list @ [val] \<and> s5' = s1
            else decode_list_loop (b_list @ [val]) s1 = Inr (lv5, s5')"
    by (subst (asm) decode_list_loop.simps) (auto split: sum.splits if_splits)
  from "5.hyps"(1) [OF ne "5.prems"(1) b] have s1: "cursor_inv s1" "data s1 = data s" "index s < index s1"
    by auto
  show ?case
  proof (cases "char s1 = Some CHR ''e''")
    case True
    with c s1 show ?thesis by auto
  next
    case False
    with c have r: "decode_list_loop (b_list @ [val]) s1 = Inr (lv5, s5')" by simp
    from "5.hyps"(2) [OF ne b refl False s1(1) r] s1 show ?thesis by auto
  qed
qed

section \<open>Decoding is local to the bytes of the value\<close>

text \<open>A method that returns has looked at no byte after the last one it consumed, and at
  none before its first: it returns the same in every buffer around its bytes.\<close>

lemma char_isdigit_not_None: "char_isdigit c \<Longrightarrow> c \<noteq> None"
  by (cases c) (auto simp: char_isdigit_def)

lemma embed_sel [simp]:
  "data (embed pre post s) = pre @ data s @ post"
  "index (embed pre post s) = length pre + index s"
  by (simp_all add: embed_def)

lemma embed_char: "cursor_inv s \<Longrightarrow> char s \<noteq> None \<Longrightarrow> char (embed pre post s) = char s"
  by (auto simp: embed_def cursor_inv_def nth_append split: if_splits)

lemma embed_char_Some: "cursor_inv s \<Longrightarrow> char s = Some c \<Longrightarrow> char (embed pre post s) = Some c"
  using embed_char [of s pre post] by simp

lemma embed_inv: "cursor_inv s \<Longrightarrow> cursor_inv (embed pre post s)"
  by (auto simp: embed_def cursor_inv_def nth_append split: if_splits)

lemma consume_embed:
  assumes "cursor_inv s" "consume c s = Inr s'"
  shows "consume c (embed pre post s) = Inr (embed pre post s')"
proof -
  from assms(2) have c: "char s = Some c"
    and s': "s' = s\<lparr>index := index s + 1,
               char := (if index s + 1 < length (data s)
                        then Some (data s ! (index s + 1)) else None)\<rparr>"
    by (auto simp: consume_def split: if_splits)
  from embed_char_Some [OF assms(1) c] have "char (embed pre post s) = Some c" .
  then show ?thesis
    by (auto simp: consume_def s' embed_def nth_append)
qed

lemma decode_char_embed:
  assumes "cursor_inv s" "decode_char s = Inr (b, s')"
  shows "decode_char (embed pre post s) = Inr (b, embed pre post s')"
  using assms by (auto simp: decode_char_def embed_def nth_append split: if_splits)

lemma decode_digit_range_embed:
  assumes "cursor_inv s" "decode_digit_range ns s = Inr (d, s')"
  shows "decode_digit_range ns (embed pre post s) = Inr (d, embed pre post s')"
  using assms(2)
proof (induction ns)
  case Nil
  then show ?case by simp
next
  case (Cons num nums)
  from decode_digit_range_Inr [OF Cons.prems] have "char s \<noteq> None" by auto
  from embed_char [OF assms(1) this] have ch: "char (embed pre post s) = char s" .
  show ?case
  proof (cases "char s = Some (str num)")
    case True
    with Cons.prems have "consume (str num) s = Inr s'" "d = num"
      by (auto split: sum.splits)
    with True ch consume_embed [OF assms(1) this(1)] show ?thesis by simp
  next
    case False
    with Cons ch show ?thesis by simp
  qed
qed

lemma decode_digit_embed:
  "cursor_inv s \<Longrightarrow> decode_digit s = Inr (d, s') \<Longrightarrow>
   decode_digit (embed pre post s) = Inr (d, embed pre post s')"
  unfolding decode_digit_def by (rule decode_digit_range_embed)

lemma decode_digits_embed:
  "cursor_inv s \<Longrightarrow> decode_digits num s = Inr (num', s') \<Longrightarrow> char s' \<noteq> None \<Longrightarrow>
   decode_digits num (embed pre post s) = Inr (num', embed pre post s')"
proof (induction num s rule: decode_digits.induct)
  case (1 num s)
  show ?case
  proof (cases "char_isdigit (char s)")
    case True
    with "1.prems"(2) obtain d s1 where d: "decode_digit s = Inr (d, s1)"
      and r: "decode_digits (num @ [str d]) s1 = Inr (num', s')"
      by (subst (asm) decode_digits.simps) (auto split: sum.splits)
    from True have "char s \<noteq> None" by (rule char_isdigit_not_None)
    from embed_char [OF "1.prems"(1) this] True
    have dg: "char_isdigit (char (embed pre post s))" by simp
    from decode_digit_inv [OF "1.prems"(1) d] have "cursor_inv s1" by simp
    from "1.IH" [OF True d refl this r "1.prems"(3)] decode_digit_embed [OF "1.prems"(1) d] dg
    show ?thesis
      by (subst decode_digits.simps) simp
  next
    case False
    with "1.prems"(2) have eq: "num' = num" "s' = s"
      by (subst (asm) decode_digits.simps, simp)+
    with "1.prems"(3) embed_char [OF "1.prems"(1)] False
    have "\<not> char_isdigit (char (embed pre post s))" by simp
    with eq show ?thesis
      by (subst decode_digits.simps) simp
  qed
qed

lemma decode_num_embed:
  assumes "cursor_inv s" "decode_num s = Inr (n, s')" "char s' \<noteq> None"
  shows "decode_num (embed pre post s) = Inr (n, embed pre post s')"
proof (cases "char s = Some CHR ''0''")
  case True
  with assms(2) obtain d where d: "decode_digit s = Inr (d, s')"
    and nd: "\<not> char_isdigit (char s')" and n: "n = int (int_of_str 0 [str d])"
    by (auto simp: decode_num_def split: sum.splits if_splits)
  from decode_digit_inv [OF assms(1) d] have "cursor_inv s'" by simp
  from embed_char [OF this assms(3)] nd
  have "\<not> char_isdigit (char (embed pre post s'))" by simp
  with embed_char_Some [OF assms(1) True] decode_digit_embed [OF assms(1) d] n
  show ?thesis
    by (simp add: decode_num_def)
next
  case False
  with assms(2) obtain num where d: "decode_digits [] s = Inr (num, s')"
    and n: "num \<noteq> []" "n = int (int_of_str 0 num)"
    by (auto simp: decode_num_def split: sum.splits if_splits)
  from d n(1) have "char s \<noteq> None"
    by (subst (asm) decode_digits.simps) (auto dest: char_isdigit_not_None split: if_splits)
  from embed_char [OF assms(1) this] False
  have "char (embed pre post s) \<noteq> Some CHR ''0''" by simp
  with decode_digits_embed [OF assms(1) d assms(3)] n
  show ?thesis
    by (simp add: decode_num_def)
qed


lemma consume_Inr_char: "consume c s = Inr s' \<Longrightarrow> char s = Some c"
  by (auto simp: consume_def split: if_splits)

lemma decode_digits_nonempty_char:
  "decode_digits [] s = Inr (num, s') \<Longrightarrow> num \<noteq> [] \<Longrightarrow> char s \<noteq> None"
  by (subst (asm) decode_digits.simps) (auto dest: char_isdigit_not_None split: if_splits)

lemma decode_num_Inr_char: "decode_num s = Inr (n, s') \<Longrightarrow> char s \<noteq> None"
  by (auto simp: decode_num_def split: if_splits sum.splits dest: decode_digits_nonempty_char)

lemma decode_snum_embed:
  assumes "cursor_inv s" "decode_snum s = Inr (n, s')" "char s' \<noteq> None"
  shows "decode_snum (embed pre post s) = Inr (n, embed pre post s')"
proof (cases "char_isdigit (char s)")
  case True
  with assms(2) have n: "decode_num s = Inr (n, s')"
    by (simp add: decode_snum_def)
  from embed_char [OF assms(1) char_isdigit_not_None [OF True]] True
  have "char_isdigit (char (embed pre post s))" by simp
  with decode_num_embed [OF assms(1) n assms(3)] show ?thesis
    by (simp add: decode_snum_def)
next
  case False
  with assms(2) obtain s1 m where m: "char s = Some CHR ''-''"
    and c: "consume CHR ''-'' s = Inr s1" and z: "char s1 \<noteq> Some CHR ''0''"
    and n: "decode_num s1 = Inr (m, s')" "n = - m"
    by (auto simp: decode_snum_def split: if_splits sum.splits)
  from consume_inv [OF assms(1) c] have s1: "cursor_inv s1" by simp
  from n(1) have "char s1 \<noteq> None" by (rule decode_num_Inr_char)
  from embed_char [OF s1 this] z have z': "char (embed pre post s1) \<noteq> Some CHR ''0''"
    by simp
  from embed_char_Some [OF assms(1) m] False m
  have "\<not> char_isdigit (char (embed pre post s))" "char (embed pre post s) = Some CHR ''-''"
    by simp_all
  with consume_embed [OF assms(1) c] z' decode_num_embed [OF s1 n(1) assms(3)] n(2)
  show ?thesis
    by (simp add: decode_snum_def)
qed

lemma decode_int_embed:
  assumes "cursor_inv s" "decode_int s = Inr (n, s')"
  shows "decode_int (embed pre post s) = Inr (n, embed pre post s')"
proof -
  from assms(2) obtain s1 s2 where a: "consume CHR ''i'' s = Inr s1"
    and b: "decode_snum s1 = Inr (n, s2)" and c: "consume CHR ''e'' s2 = Inr s'"
    by (auto simp: decode_int_def split: sum.splits)
  from consume_inv [OF assms(1) a] have s1: "cursor_inv s1" by simp
  from decode_snum_inv [OF s1 b] have s2: "cursor_inv s2" by simp
  from consume_Inr_char [OF c] have "char s2 \<noteq> None" by simp
  from consume_embed [OF assms(1) a] decode_snum_embed [OF s1 b this] consume_embed [OF s2 c]
  show ?thesis
    by (simp add: decode_int_def)
qed

lemma decode_chars_embed:
  "cursor_inv s \<Longrightarrow> decode_chars n acc s = Inr (b, s') \<Longrightarrow>
   decode_chars n acc (embed pre post s) = Inr (b, embed pre post s')"
proof (induction n arbitrary: acc s)
  case 0
  then show ?case by simp
next
  case (Suc n)
  from Suc.prems(2) obtain c s1 where c: "decode_char s = Inr (c, s1)"
    and r: "decode_chars n (acc @ [c]) s1 = Inr (b, s')"
    by (auto split: sum.splits)
  from decode_char_inv [OF Suc.prems(1) c] have "cursor_inv s1" by simp
  from Suc.IH [OF this r] decode_char_embed [OF Suc.prems(1) c] show ?case by simp
qed

lemma decode_str_embed:
  assumes "cursor_inv s" "decode_str s = Inr (b, s')"
  shows "decode_str (embed pre post s) = Inr (b, embed pre post s')"
proof -
  from assms(2) obtain n s1 s2 where a: "decode_num s = Inr (n, s1)"
    and c: "consume CHR '':'' s1 = Inr s2" and r: "decode_chars (nat n) [] s2 = Inr (b, s')"
    by (auto simp: decode_str_def split: sum.splits)
  from decode_num_inv [OF assms(1) a] have s1: "cursor_inv s1" by simp
  from consume_inv [OF s1 c] have s2: "cursor_inv s2" by simp
  from consume_Inr_char [OF c] have "char s1 \<noteq> None" by simp
  from decode_num_embed [OF assms(1) a this] consume_embed [OF s1 c] decode_chars_embed [OF s2 r]
  show ?thesis
    by (simp add: decode_str_def)
qed


lemma decode_dict_loop_Inr_char: "decode_dict_loop d s = Inr r \<Longrightarrow> char s \<noteq> None"
  by (subst (asm) decode_dict_loop.simps) (auto split: if_splits)

lemma decode_list_loop_Inr_char: "decode_list_loop l s = Inr r \<Longrightarrow> char s \<noteq> None"
  by (subst (asm) decode_list_loop.simps) (auto split: if_splits)

lemma decode_bencode_Inr_char: "decode_bencode s = Inr r \<Longrightarrow> char s \<noteq> None"
  by (subst (asm) decode_bencode.simps) (auto split: if_splits dest: char_isdigit_not_None)

lemma decode_embed:
  "cursor_inv s \<Longrightarrow> decode_bencode s = Inr (v, s') \<Longrightarrow>
     decode_bencode (embed pre post s) = Inr (v, embed pre post s')"
  "cursor_inv s2 \<Longrightarrow> decode_dict s2 = Inr (dv, s2') \<Longrightarrow>
     decode_dict (embed pre post s2) = Inr (dv, embed pre post s2')"
  "cursor_inv s3 \<Longrightarrow> decode_dict_loop d s3 = Inr (dv3, s3') \<Longrightarrow>
     decode_dict_loop d (embed pre post s3) = Inr (dv3, embed pre post s3')"
  "cursor_inv s4 \<Longrightarrow> decode_list s4 = Inr (lv, s4') \<Longrightarrow>
     decode_list (embed pre post s4) = Inr (lv, embed pre post s4')"
  "cursor_inv s5 \<Longrightarrow> decode_list_loop l s5 = Inr (lv5, s5') \<Longrightarrow>
     decode_list_loop l (embed pre post s5) = Inr (lv5, embed pre post s5')"
proof (induct s and s2 and d s3 and s4 and l s5
    arbitrary: v s' and dv s2' and dv3 s3' and lv s4' and lv5 s5'
    rule: decode_bencode_decode_dict_decode_dict_loop_decode_list_decode_list_loop.induct)
  case (1 s)
  from embed_char [OF "1.prems"(1) decode_bencode_Inr_char [OF "1.prems"(2)]]
  have ch: "char (embed pre post s) = char s" .
  show ?case
  proof (cases "char s = Some CHR ''d''")
    case True
    with "1.prems"(2) obtain dv where d: "decode_dict s = Inr (dv, s')" and v: "v = BDict dv"
      by (subst (asm) decode_bencode.simps) (auto split: sum.splits)
    from "1.hyps"(1) [OF True "1.prems"(1) d] True ch v show ?thesis
      by (subst decode_bencode.simps) simp
  next
    case nd: False
    show ?thesis
    proof (cases "char s = Some CHR ''l''")
      case True
      with "1.prems"(2) obtain lv where d: "decode_list s = Inr (lv, s')" and v: "v = BList lv"
        by (subst (asm) decode_bencode.simps) (auto split: sum.splits)
      from "1.hyps"(2) [OF nd True "1.prems"(1) d] True ch v show ?thesis
        by (subst decode_bencode.simps) simp
    next
      case nl: False
      show ?thesis
      proof (cases "char s = Some CHR ''i''")
        case True
        with "1.prems"(2) obtain n where d: "decode_int s = Inr (n, s')" and v: "v = BInt n"
          by (subst (asm) decode_bencode.simps) (auto split: sum.splits)
        from decode_int_embed [OF "1.prems"(1) d] True ch v show ?thesis
          by (subst decode_bencode.simps) simp
      next
        case False
        with nd nl "1.prems"(2) obtain b where dg: "char_isdigit (char s)"
          and d: "decode_str s = Inr (b, s')" and v: "v = BBytes b"
          by (subst (asm) decode_bencode.simps) (auto split: sum.splits if_splits)
        from decode_str_embed [OF "1.prems"(1) d] False nd nl dg ch v show ?thesis
          by (subst decode_bencode.simps) simp
      qed
    qed
  qed
next
  case (2 s)
  from "2.prems"(2) obtain s1 s2 where a: "consume CHR ''d'' s = Inr s1"
    and b: "decode_dict_loop [] s1 = Inr (dv, s2)" and c: "consume CHR ''e'' s2 = Inr s2'"
    by (subst (asm) decode_dict.simps) (auto split: sum.splits)
  from consume_inv [OF "2.prems"(1) a] have s1: "cursor_inv s1" by simp
  from decode_inv(3) [OF s1 b] have s2: "cursor_inv s2" by simp
  from consume_embed [OF "2.prems"(1) a] "2.hyps" [OF a s1 b] consume_embed [OF s2 c]
  show ?case
    by (subst decode_dict.simps) simp
next
  case (3 dictionary s)
  from "3.prems"(2) obtain key s1 val s2 where ne: "char s \<noteq> None"
    and a: "decode_str s = Inr (key, s1)" and b: "decode_bencode s1 = Inr (val, s2)"
    and c: "if char s2 = Some CHR ''e'' then dv3 = dict_set dictionary key val \<and> s3' = s2
            else decode_dict_loop (dict_set dictionary key val) s2 = Inr (dv3, s3')"
    by (subst (asm) decode_dict_loop.simps) (auto split: sum.splits if_splits)
  from embed_char [OF "3.prems"(1) ne] ne have ch: "char (embed pre post s) \<noteq> None" by simp
  from decode_str_inv [OF "3.prems"(1) a] have s1: "cursor_inv s1" by simp
  from decode_inv(1) [OF s1 b] have s2: "cursor_inv s2" by simp
  note a' = decode_str_embed [OF "3.prems"(1) a, of pre post]
  note b' = "3.hyps"(1) [OF ne a refl s1 b]
  show ?case
  proof (cases "char s2 = Some CHR ''e''")
    case True
    from embed_char_Some [OF s2 True] c True ch a' b' show ?thesis
      by (subst decode_dict_loop.simps) simp
  next
    case False
    with c have r: "decode_dict_loop (dict_set dictionary key val) s2 = Inr (dv3, s3')" by simp
    from embed_char [OF s2 decode_dict_loop_Inr_char [OF r]] False
    have "char (embed pre post s2) \<noteq> Some CHR ''e''" by simp
    with "3.hyps"(2) [OF ne a refl b refl False s2 r] ch a' b' show ?thesis
      by (subst decode_dict_loop.simps) simp
  qed
next
  case (4 s)
  from "4.prems"(2) obtain s1 s2 where a: "consume CHR ''l'' s = Inr s1"
    and b: "decode_list_loop [] s1 = Inr (lv, s2)" and c: "consume CHR ''e'' s2 = Inr s4'"
    by (subst (asm) decode_list.simps) (auto split: sum.splits)
  from consume_inv [OF "4.prems"(1) a] have s1: "cursor_inv s1" by simp
  from decode_inv(5) [OF s1 b] have s2: "cursor_inv s2" by simp
  from consume_embed [OF "4.prems"(1) a] "4.hyps" [OF a s1 b] consume_embed [OF s2 c]
  show ?case
    by (subst decode_list.simps) simp
next
  case (5 b_list s)
  from "5.prems"(2) obtain val s1 where ne: "char s \<noteq> None"
    and b: "decode_bencode s = Inr (val, s1)"
    and c: "if char s1 = Some CHR ''e'' then lv5 = b_list @ [val] \<and> s5' = s1
            else decode_list_loop (b_list @ [val]) s1 = Inr (lv5, s5')"
    by (subst (asm) decode_list_loop.simps) (auto split: sum.splits if_splits)
  from embed_char [OF "5.prems"(1) ne] ne have ch: "char (embed pre post s) \<noteq> None" by simp
  from decode_inv(1) [OF "5.prems"(1) b] have s1: "cursor_inv s1" by simp
  note b' = "5.hyps"(1) [OF ne "5.prems"(1) b]
  show ?case
  proof (cases "char s1 = Some CHR ''e''")
    case True
    from embed_char_Some [OF s1 True] c True ch b' show ?thesis
      by (subst decode_list_loop.simps) simp
  next
    case False
    with c have r: "decode_list_loop (b_list @ [val]) s1 = Inr (lv5, s5')" by simp
    from embed_char [OF s1 decode_list_loop_Inr_char [OF r]] False
    have "char (embed pre post s1) \<noteq> Some CHR ''e''" by simp
    with "5.hyps"(2) [OF ne b refl False s1 r] ch b' show ?thesis
      by (subst decode_list_loop.simps) simp
  qed
qed

subsection \<open>A value inside a longer buffer\<close>

lemma cursor_at_sel [simp]:
  "data (cursor_at bs i) = bs"
  "index (cursor_at bs i) = i"
  by (simp_all add: cursor_at_def)

lemma cursor_at_char:
  "char (cursor_at bs i) = (if i < length bs then Some (bs ! i) else None)"
  by (simp add: cursor_at_def)

lemma cursor_inv_cursor_at: "i \<le> length bs \<Longrightarrow> cursor_inv (cursor_at bs i)"
  by (simp add: cursor_inv_def cursor_at_char)

lemma cursor_inv_eq: "cursor_inv s \<Longrightarrow> s = cursor_at (data s) (index s)"
  by (simp add: cursor_inv_def cursor_at_def)

lemma Decoder_cursor_at: "bs \<noteq> [] \<Longrightarrow> Decoder bs = Inr (cursor_at bs 0)"
  by (simp add: Decoder_def cursor_at_def)

lemma embed_cursor_at:
  "i \<le> length bs \<Longrightarrow> embed pre post (cursor_at bs i) = cursor_at (pre @ bs @ post) (length pre + i)"
  by (auto simp: embed_def cursor_at_def nth_append)

lemma consume_cursor_at:
  "i < length bs \<Longrightarrow> bs ! i = c \<Longrightarrow> consume c (cursor_at bs i) = Inr (cursor_at bs (Suc i))"
  by (simp add: consume_def cursor_at_def)

lemma decode_Inr_run:
  assumes "decode bs = Inr v"
  shows "bs \<noteq> [] \<and> decode_bencode (cursor_at bs 0) = Inr (v, cursor_at bs (length bs))"
proof -
  from assms have ne: "bs \<noteq> []"
    by (auto simp: decode_def Decoder_def split: if_splits)
  with assms obtain s1 where r: "decode_bencode (cursor_at bs 0) = Inr (v, s1)"
    and c: "char s1 = None"
    by (auto simp: decode_def Decoder_cursor_at split: sum.splits if_splits)
  from decode_inv(1) [OF cursor_inv_cursor_at r]
  have s1: "cursor_inv s1" "data s1 = bs" by simp_all
  from cursor_inv_None [OF s1(1)] c s1(2) have "index s1 = length bs" by simp
  with cursor_inv_eq [OF s1(1)] s1(2) have "s1 = cursor_at bs (length bs)" by simp
  with ne r show ?thesis by simp
qed

lemma decode_segment:
  assumes "decode bs = Inr v"
  shows "decode_bencode (cursor_at (pre @ bs @ post) (length pre)) =
           Inr (v, cursor_at (pre @ bs @ post) (length pre + length bs))"
proof -
  from decode_Inr_run [OF assms]
  have r: "decode_bencode (cursor_at bs 0) = Inr (v, cursor_at bs (length bs))" by simp
  from decode_embed(1) [OF cursor_inv_cursor_at r, of pre post]
  show ?thesis by (simp add: embed_cursor_at)
qed

lemma decode_str_segment:
  assumes "decode k = Inr (BBytes key)"
  shows "decode_str (cursor_at (pre @ k @ post) (length pre)) =
           Inr (key, cursor_at (pre @ k @ post) (length pre + length k))"
proof -
  from decode_Inr_run [OF assms]
  have "decode_bencode (cursor_at k 0) = Inr (BBytes key, cursor_at k (length k))" by simp
  then have r: "decode_str (cursor_at k 0) = Inr (key, cursor_at k (length k))"
    by (subst (asm) decode_bencode.simps) (auto split: if_splits sum.splits)
  from decode_str_embed [OF cursor_inv_cursor_at r, of pre post]
  show ?thesis by (simp add: embed_cursor_at)
qed

lemma decode_trailing:
  assumes "decode bs = Inr v" "extra \<noteq> []"
  shows "decode (bs @ extra) = Inl (ValueError Extra_data)"
proof -
  from decode_segment [OF assms(1), of "[]" extra]
  have "decode_bencode (cursor_at (bs @ extra) 0) = Inr (v, cursor_at (bs @ extra) (length bs))"
    by simp
  with assms(2) show ?thesis
    by (simp add: decode_def Decoder_cursor_at cursor_at_char)
qed

section \<open>The error for empty data comes from the constructor only\<close>

lemma consume_not_empty: "consume c s = Inl e \<Longrightarrow> e \<noteq> ValueError Empty_data"
  by (auto simp: consume_def split: if_splits)

lemma decode_char_not_empty: "decode_char s = Inl e \<Longrightarrow> e \<noteq> ValueError Empty_data"
  by (auto simp: decode_char_def split: if_splits)

lemma decode_digit_range_not_empty:
  "decode_digit_range ns s = Inl e \<Longrightarrow> e \<noteq> ValueError Empty_data"
  by (induction ns) (auto split: if_splits sum.splits dest: consume_not_empty)

lemma decode_digit_not_empty: "decode_digit s = Inl e \<Longrightarrow> e \<noteq> ValueError Empty_data"
  unfolding decode_digit_def by (rule decode_digit_range_not_empty)

lemma decode_digits_not_empty:
  "decode_digits num s = Inl e \<Longrightarrow> e \<noteq> ValueError Empty_data"
proof (induction num s rule: decode_digits.induct)
  case (1 num s)
  from "1.prems" show ?case
    by (subst (asm) decode_digits.simps)
       (auto split: if_splits sum.splits dest: decode_digit_not_empty "1.IH")
qed

lemma decode_num_not_empty: "decode_num s = Inl e \<Longrightarrow> e \<noteq> ValueError Empty_data"
  by (auto simp: decode_num_def split: if_splits sum.splits
      dest: decode_digit_not_empty decode_digits_not_empty)

lemma decode_snum_not_empty: "decode_snum s = Inl e \<Longrightarrow> e \<noteq> ValueError Empty_data"
  by (auto simp: decode_snum_def split: if_splits sum.splits
      dest: decode_num_not_empty consume_not_empty)

lemma decode_int_not_empty: "decode_int s = Inl e \<Longrightarrow> e \<noteq> ValueError Empty_data"
  by (auto simp: decode_int_def split: if_splits sum.splits
      dest: decode_snum_not_empty consume_not_empty)

lemma decode_chars_not_empty:
  "decode_chars n acc s = Inl e \<Longrightarrow> e \<noteq> ValueError Empty_data"
  by (induction n arbitrary: acc s) (auto split: sum.splits dest: decode_char_not_empty)

lemma decode_str_not_empty: "decode_str s = Inl e \<Longrightarrow> e \<noteq> ValueError Empty_data"
  by (auto simp: decode_str_def split: if_splits sum.splits
      dest: decode_num_not_empty consume_not_empty decode_chars_not_empty)

lemma decode_not_empty:
  "decode_bencode s = Inl e \<Longrightarrow> e \<noteq> ValueError Empty_data"
  "decode_dict s2 = Inl e \<Longrightarrow> e \<noteq> ValueError Empty_data"
  "decode_dict_loop d s3 = Inl e \<Longrightarrow> e \<noteq> ValueError Empty_data"
  "decode_list s4 = Inl e \<Longrightarrow> e \<noteq> ValueError Empty_data"
  "decode_list_loop l s5 = Inl e \<Longrightarrow> e \<noteq> ValueError Empty_data"
proof (induct s and s2 and d s3 and s4 and l s5
    rule: decode_bencode_decode_dict_decode_dict_loop_decode_list_decode_list_loop.induct)
  case (1 s)
  show ?case
  proof (cases "char s = Some CHR ''d''")
    case True
    with "1.prems" "1.hyps"(1) show ?thesis
      by (subst (asm) decode_bencode.simps) (auto split: sum.splits)
  next
    case nd: False
    show ?thesis
    proof (cases "char s = Some CHR ''l''")
      case True
      with nd "1.prems" "1.hyps"(2) show ?thesis
        by (subst (asm) decode_bencode.simps) (auto split: sum.splits)
    next
      case False
      with nd "1.prems" show ?thesis
        by (subst (asm) decode_bencode.simps)
           (auto split: if_splits sum.splits dest: decode_int_not_empty decode_str_not_empty)
    qed
  qed
next
  case (2 s)
  from "2.prems" show ?case
    by (subst (asm) decode_dict.simps)
       (auto split: sum.splits dest: "2.hyps" consume_not_empty)
next
  case (3 dictionary s)
  show ?case
  proof (cases "char s = None")
    case True
    with "3.prems" show ?thesis
      by (subst (asm) decode_dict_loop.simps) auto
  next
    case ne: False
    show ?thesis
    proof (cases "decode_str s")
      case (Inl e')
      with ne "3.prems" show ?thesis
        by (subst (asm) decode_dict_loop.simps) (auto dest: decode_str_not_empty)
    next
      case (Inr r)
      obtain key s1 where r: "r = (key, s1)" by (cases r)
      show ?thesis
      proof (cases "decode_bencode s1")
        case (Inl e')
        with ne Inr r "3.prems" "3.hyps"(1) [OF ne Inr r [symmetric]] show ?thesis
          by (subst (asm) decode_dict_loop.simps) auto
      next
        case b: (Inr r2)
        obtain val s2 where r2: "r2 = (val, s2)" by (cases r2)
        from ne Inr r b r2 "3.prems"
          "3.hyps"(2) [OF ne Inr r [symmetric] b r2 [symmetric]]
        show ?thesis
          by (subst (asm) decode_dict_loop.simps) (auto split: if_splits)
      qed
    qed
  qed
next
  case (4 s)
  from "4.prems" show ?case
    by (subst (asm) decode_list.simps)
       (auto split: sum.splits dest: "4.hyps" consume_not_empty)
next
  case (5 b_list s)
  show ?case
  proof (cases "char s = None")
    case True
    with "5.prems" show ?thesis
      by (subst (asm) decode_list_loop.simps) auto
  next
    case ne: False
    show ?thesis
    proof (cases "decode_bencode s")
      case (Inl e')
      with ne "5.prems" "5.hyps"(1) [OF ne] show ?thesis
        by (subst (asm) decode_list_loop.simps) auto
    next
      case b: (Inr r)
      obtain val s1 where r: "r = (val, s1)" by (cases r)
      from ne b r "5.prems" "5.hyps"(2) [OF ne b r [symmetric]]
      show ?thesis
        by (subst (asm) decode_list_loop.simps) (auto split: if_splits)
    qed
  qed
qed

lemma decode_nonempty_not_Empty_data:
  "bs \<noteq> [] \<Longrightarrow> decode bs \<noteq> Inl (ValueError Empty_data)"
  by (auto simp: decode_def Decoder_def split: sum.splits dest: decode_not_empty(1))

section \<open>Containers that are returned are not empty\<close>

lemma dict_set_not_Nil: "dict_set d k v \<noteq> []"
  by (auto simp: dict_set_def)

lemma dict_set_list_all:
  "list_all (\<lambda>p. P (snd p)) d \<Longrightarrow> P v \<Longrightarrow> list_all (\<lambda>p. P (snd p)) (dict_set d k v)"
  by (auto simp: dict_set_def list_all_iff)

lemma decode_nonempty_containers:
  "decode_bencode s = Inr (v, s') \<Longrightarrow> nonempty_containers v"
  "decode_dict s2 = Inr (dv, s2') \<Longrightarrow>
     dv \<noteq> [] \<and> list_all (\<lambda>p. nonempty_containers (snd p)) dv"
  "decode_dict_loop d s3 = Inr (dv3, s3') \<Longrightarrow> list_all (\<lambda>p. nonempty_containers (snd p)) d \<Longrightarrow>
     dv3 \<noteq> [] \<and> list_all (\<lambda>p. nonempty_containers (snd p)) dv3"
  "decode_list s4 = Inr (lv, s4') \<Longrightarrow> lv \<noteq> [] \<and> list_all nonempty_containers lv"
  "decode_list_loop l s5 = Inr (lv5, s5') \<Longrightarrow> list_all nonempty_containers l \<Longrightarrow>
     lv5 \<noteq> [] \<and> list_all nonempty_containers lv5"
proof (induct s and s2 and d s3 and s4 and l s5
    arbitrary: v s' and dv s2' and dv3 s3' and lv s4' and lv5 s5'
    rule: decode_bencode_decode_dict_decode_dict_loop_decode_list_decode_list_loop.induct)
  case (1 s)
  show ?case
  proof (cases "char s = Some CHR ''d''")
    case True
    with "1.prems" obtain dv where d: "decode_dict s = Inr (dv, s')" and v: "v = BDict dv"
      by (subst (asm) decode_bencode.simps) (auto split: sum.splits)
    from "1.hyps"(1) [OF True d] v show ?thesis by simp
  next
    case nd: False
    show ?thesis
    proof (cases "char s = Some CHR ''l''")
      case True
      with "1.prems" obtain lv where d: "decode_list s = Inr (lv, s')" and v: "v = BList lv"
        by (subst (asm) decode_bencode.simps) (auto split: sum.splits)
      from "1.hyps"(2) [OF nd True d] v show ?thesis by simp
    next
      case False
      with nd "1.prems" show ?thesis
        by (subst (asm) decode_bencode.simps) (auto split: if_splits sum.splits)
    qed
  qed
next
  case (2 s)
  from "2.prems" obtain s1 s2 where a: "consume CHR ''d'' s = Inr s1"
    and b: "decode_dict_loop [] s1 = Inr (dv, s2)"
    by (subst (asm) decode_dict.simps) (auto split: sum.splits)
  from "2.hyps" [OF a b] show ?case by simp
next
  case (3 dictionary s)
  from "3.prems"(1) obtain key s1 val s2 where ne: "char s \<noteq> None"
    and a: "decode_str s = Inr (key, s1)" and b: "decode_bencode s1 = Inr (val, s2)"
    and c: "if char s2 = Some CHR ''e'' then dv3 = dict_set dictionary key val \<and> s3' = s2
            else decode_dict_loop (dict_set dictionary key val) s2 = Inr (dv3, s3')"
    by (subst (asm) decode_dict_loop.simps) (auto split: sum.splits if_splits)
  from "3.hyps"(1) [OF ne a refl b] have "nonempty_containers val" .
  from dict_set_list_all [of nonempty_containers, OF "3.prems"(2) this]
  have all: "list_all (\<lambda>p. nonempty_containers (snd p)) (dict_set dictionary key val)" .
  show ?case
  proof (cases "char s2 = Some CHR ''e''")
    case True
    with c all show ?thesis by (simp add: dict_set_not_Nil)
  next
    case False
    with c have r: "decode_dict_loop (dict_set dictionary key val) s2 = Inr (dv3, s3')" by simp
    from "3.hyps"(2) [OF ne a refl b refl False r all] show ?thesis .
  qed
next
  case (4 s)
  from "4.prems" obtain s1 s2 where a: "consume CHR ''l'' s = Inr s1"
    and b: "decode_list_loop [] s1 = Inr (lv, s2)"
    by (subst (asm) decode_list.simps) (auto split: sum.splits)
  from "4.hyps" [OF a b] show ?case by simp
next
  case (5 b_list s)
  from "5.prems"(1) obtain val s1 where ne: "char s \<noteq> None"
    and b: "decode_bencode s = Inr (val, s1)"
    and c: "if char s1 = Some CHR ''e'' then lv5 = b_list @ [val] \<and> s5' = s1
            else decode_list_loop (b_list @ [val]) s1 = Inr (lv5, s5')"
    by (subst (asm) decode_list_loop.simps) (auto split: sum.splits if_splits)
  from "5.hyps"(1) [OF ne b] "5.prems"(2)
  have all: "list_all nonempty_containers (b_list @ [val])" by simp
  show ?case
  proof (cases "char s1 = Some CHR ''e''")
    case True
    with c all show ?thesis by simp
  next
    case False
    with c have r: "decode_list_loop (b_list @ [val]) s1 = Inr (lv5, s5')" by simp
    from "5.hyps"(2) [OF ne b refl False r all] show ?thesis .
  qed
qed

lemma decode_result_nonempty_containers: "decode bs = Inr v \<Longrightarrow> nonempty_containers v"
  by (auto simp: decode_def split: sum.splits if_splits dest: decode_nonempty_containers(1))

section \<open>Inputs that end inside a container\<close>

lemma isdigit_not_e: "\<not> isdigit CHR ''e''"
  by (simp add: isdigit_def)

lemma decode_Inr_hd:
  assumes "decode b = Inr v"
  shows "b \<noteq> [] \<and> hd b \<noteq> CHR ''e''"
proof -
  from decode_Inr_run [OF assms] have ne: "b \<noteq> []"
    and r: "decode_bencode (cursor_at b 0) = Inr (v, cursor_at b (length b))" by simp_all
  from r ne have "b ! 0 \<noteq> CHR ''e''"
    by (subst (asm) decode_bencode.simps)
       (auto simp: char_isdigit_def isdigit_not_e cursor_at_char split: if_splits)
  with ne show ?thesis by (simp add: hd_conv_nth)
qed

lemma hd_concat_not_e:
  "\<forall>b\<in>set bss. b \<noteq> [] \<and> hd b \<noteq> CHR ''e'' \<Longrightarrow> x = [] \<or> hd x \<noteq> CHR ''e'' \<Longrightarrow>
   concat bss @ x = [] \<or> hd (concat bss @ x) \<noteq> CHR ''e''"
  by (cases bss) auto

lemma cursor_at_end_char:
  "char (cursor_at (xs @ rest) (length xs)) = (if rest = [] then None else Some (hd rest))"
  by (simp add: hd_conv_nth nth_append cursor_at_char)

lemma cursor_at_end_not_e:
  "rest = [] \<or> hd rest \<noteq> c \<Longrightarrow> char (cursor_at (xs @ rest) (length xs)) \<noteq> Some c"
  by (auto simp: cursor_at_end_char)

lemma decode_list_loop_open:
  assumes x: "x = [] \<or> hd x \<noteq> CHR ''e''"
    and tail: "\<And>pre acc. decode_list_loop acc (cursor_at (pre @ x) (length pre)) = Inl e"
  shows "\<forall>b\<in>set bss. \<exists>v. decode b = Inr v \<Longrightarrow>
    decode_list_loop acc (cursor_at (pre @ concat bss @ x) (length pre)) = Inl e"
proof (induction bss arbitrary: pre acc)
  case Nil
  then show ?case by (simp add: tail)
next
  case (Cons b bss)
  from Cons.prems obtain v where v: "decode b = Inr v" by auto
  from decode_Inr_hd [OF v] have ne: "b \<noteq> []" by simp
  from Cons.prems have "\<forall>b\<in>set bss. b \<noteq> [] \<and> hd b \<noteq> CHR ''e''"
    by (auto dest: decode_Inr_hd)
  from hd_concat_not_e [OF this x]
  have nx: "concat bss @ x = [] \<or> hd (concat bss @ x) \<noteq> CHR ''e''" .
  let ?d = "pre @ b @ concat bss @ x"
  have seg: "decode_bencode (cursor_at ?d (length pre)) =
      Inr (v, cursor_at ?d (length pre + length b))"
    using decode_segment [OF v, of pre "concat bss @ x"] by simp
  have c0: "char (cursor_at ?d (length pre)) \<noteq> None"
    using ne by (simp add: cursor_at_char)
  have c1: "char (cursor_at ?d (length pre + length b)) \<noteq> Some CHR ''e''"
    using cursor_at_end_not_e [where xs = "pre @ b", OF nx] by simp
  from Cons.IH [where pre = "pre @ b" and acc = "acc @ [v]"] Cons.prems
  have "decode_list_loop (acc @ [v]) (cursor_at ?d (length pre + length b)) = Inl e"
    by simp
  with seg c0 c1 show ?case
    by (subst decode_list_loop.simps) auto
qed

lemma decode_dict_loop_open:
  assumes x: "x = [] \<or> hd x \<noteq> CHR ''e''"
    and tail: "\<And>pre acc. decode_dict_loop acc (cursor_at (pre @ x) (length pre)) = Inl e"
  shows "\<forall>(k, b)\<in>set kbs. (\<exists>key. decode k = Inr (BBytes key)) \<and> (\<exists>v. decode b = Inr v) \<Longrightarrow>
    decode_dict_loop acc (cursor_at (pre @ concat (map (\<lambda>(k, b). k @ b) kbs) @ x) (length pre)) = Inl e"
proof (induction kbs arbitrary: pre acc)
  case Nil
  then show ?case by (simp add: tail)
next
  case (Cons kb kbs)
  obtain k b where kb: "kb = (k, b)" by (cases kb)
  from Cons.prems kb obtain key v where k: "decode k = Inr (BBytes key)" and v: "decode b = Inr v"
    by auto
  from decode_Inr_hd [OF k] have ne: "k \<noteq> []" by simp
  let ?rest = "concat (map (\<lambda>(k, b). k @ b) kbs)"
  have "b' \<noteq> [] \<and> hd b' \<noteq> CHR ''e''" if "b' \<in> set (map (\<lambda>(k, b). k @ b) kbs)" for b'
  proof -
    from that obtain k1 b1 where in_kbs: "(k1, b1) \<in> set kbs" and b': "b' = k1 @ b1" by auto
    with Cons.prems obtain key1 where "decode k1 = Inr (BBytes key1)" by auto
    from decode_Inr_hd [OF this] b' show ?thesis by simp
  qed
  then have "\<forall>b\<in>set (map (\<lambda>(k, b). k @ b) kbs). b \<noteq> [] \<and> hd b \<noteq> CHR ''e''" by blast
  from hd_concat_not_e [OF this x]
  have nx: "?rest @ x = [] \<or> hd (?rest @ x) \<noteq> CHR ''e''" .
  let ?d = "pre @ k @ b @ ?rest @ x"
  have segk: "decode_str (cursor_at ?d (length pre)) =
      Inr (key, cursor_at ?d (length pre + length k))"
    using decode_str_segment [OF k, of pre "b @ ?rest @ x"] by simp
  have segv: "decode_bencode (cursor_at ?d (length pre + length k)) =
      Inr (v, cursor_at ?d (length pre + length k + length b))"
    using decode_segment [OF v, of "pre @ k" "?rest @ x"] by simp
  have c0: "char (cursor_at ?d (length pre)) \<noteq> None"
    using ne by (simp add: cursor_at_char)
  have c1: "char (cursor_at ?d (length pre + length k + length b)) \<noteq> Some CHR ''e''"
    using cursor_at_end_not_e [where xs = "pre @ k @ b", OF nx]
    by (simp add: add.assoc)
  from Cons.IH [where pre = "pre @ k @ b" and acc = "dict_set acc key v"] Cons.prems
  have "decode_dict_loop (dict_set acc key v) (cursor_at ?d (length pre + length k + length b)) = Inl e"
    by (simp add: add.assoc)
  with segk segv c0 c1 show ?case
    by (subst decode_dict_loop.simps) (auto simp: kb)
qed

lemma unterminated_hd: "unterminated x m \<Longrightarrow> x \<noteq> [] \<and> hd x \<noteq> CHR ''e''"
  by (induction rule: unterminated.induct) auto

lemma decode_list_at:
  assumes "decode_list_loop [] (cursor_at (pre @ ''l'' @ rest) (Suc (length pre))) = Inl e"
  shows "decode_bencode (cursor_at (pre @ ''l'' @ rest) (length pre)) = Inl e"
proof -
  have "consume CHR ''l'' (cursor_at (pre @ ''l'' @ rest) (length pre)) =
      Inr (cursor_at (pre @ ''l'' @ rest) (Suc (length pre)))"
    by (rule consume_cursor_at) (simp_all add: nth_append)
  with assms have "decode_list (cursor_at (pre @ ''l'' @ rest) (length pre)) = Inl e"
    by (subst decode_list.simps) simp
  then show ?thesis
    by (subst decode_bencode.simps) (simp add: cursor_at_char nth_append)
qed

lemma decode_dict_at:
  assumes "decode_dict_loop [] (cursor_at (pre @ ''d'' @ rest) (Suc (length pre))) = Inl e"
  shows "decode_bencode (cursor_at (pre @ ''d'' @ rest) (length pre)) = Inl e"
proof -
  have "consume CHR ''d'' (cursor_at (pre @ ''d'' @ rest) (length pre)) =
      Inr (cursor_at (pre @ ''d'' @ rest) (Suc (length pre)))"
    by (rule consume_cursor_at) (simp_all add: nth_append)
  with assms have "decode_dict (cursor_at (pre @ ''d'' @ rest) (length pre)) = Inl e"
    by (subst decode_dict.simps) simp
  then show ?thesis
    by (subst decode_bencode.simps) (simp add: cursor_at_char nth_append)
qed

lemma unterminated_decode_bencode:
  "unterminated x m \<Longrightarrow> decode_bencode (cursor_at (pre @ x) (length pre)) = Inl (ValueError m)"
proof (induction arbitrary: pre rule: unterminated.induct)
  case (list_end bss)
  have "decode_list_loop acc (cursor_at (p @ []) (length p)) = Inl (ValueError Unexpected_end_list)"
    for p acc
    by (subst decode_list_loop.simps) (simp add: cursor_at_char)
  from decode_list_loop_open [where x = "[]" and pre = "pre @ ''l''" and acc = "[]", OF _ this list_end]
  show ?case
    using decode_list_at [of pre "concat bss"] by simp
next
  case (dict_end kbs)
  have "decode_dict_loop acc (cursor_at (p @ []) (length p)) = Inl (ValueError Unexpected_end_dict)"
    for p acc
    by (subst decode_dict_loop.simps) (simp add: cursor_at_char)
  from decode_dict_loop_open [where x = "[]" and pre = "pre @ ''d''" and acc = "[]", OF _ this dict_end]
  show ?case
    using decode_dict_at [of pre "concat (map (\<lambda>(k, b). k @ b) kbs)"] by simp
next
  case (in_list bss x m)
  from unterminated_hd [OF in_list.hyps(2)] have x: "x \<noteq> []" "hd x \<noteq> CHR ''e''" by simp_all
  have "decode_list_loop acc (cursor_at (p @ x) (length p)) = Inl (ValueError m)" for p acc
    using x in_list.IH [of p] by (subst decode_list_loop.simps) (simp add: cursor_at_char)
  from decode_list_loop_open [where pre = "pre @ ''l''" and acc = "[]", OF _ this in_list.hyps(1)] x
  show ?case
    using decode_list_at [of pre "concat bss @ x"] by simp
next
  case (in_dict kbs k' key' x m)
  from unterminated_hd [OF in_dict.hyps(3)] have x: "x \<noteq> []" "hd x \<noteq> CHR ''e''" by simp_all
  from decode_Inr_hd [OF in_dict.hyps(2)] have k': "k' \<noteq> []" "hd k' \<noteq> CHR ''e''" by simp_all
  have "decode_dict_loop acc (cursor_at (p @ k' @ x) (length p)) = Inl (ValueError m)" for p acc
  proof -
    have "decode_str (cursor_at (p @ k' @ x) (length p)) =
        Inr (key', cursor_at (p @ k' @ x) (length p + length k'))"
      by (rule decode_str_segment [OF in_dict.hyps(2)])
    moreover have "decode_bencode (cursor_at (p @ k' @ x) (length p + length k')) = Inl (ValueError m)"
      using in_dict.IH [of "p @ k'"] by simp
    ultimately show ?thesis
      using k' by (subst decode_dict_loop.simps) (simp add: cursor_at_char)
  qed
  from decode_dict_loop_open [where pre = "pre @ ''d''" and acc = "[]", OF _ this in_dict.hyps(1)] k'
  show ?case
    using decode_dict_at [of pre "concat (map (\<lambda>(k, b). k @ b) kbs) @ k' @ x"] by simp
qed

lemma unterminated_decode: "unterminated x m \<Longrightarrow> decode x = Inl (ValueError m)"
  using unterminated_decode_bencode [of x m "[]"] unterminated_hd [of x m]
  by (simp add: decode_def Decoder_cursor_at)

section \<open>Prefixes that the lexical rules refuse\<close>

lemma str_0: "str 0 = CHR ''0''"
  by code_simp

lemma range_10: "[0..<10] = [0, 1, 2, 3, 4, 5, 6, 7, 8, 9]"
  by code_simp

lemma decode_digit_zero:
  "char s = Some CHR ''0'' \<Longrightarrow>
   decode_digit s = (case consume CHR ''0'' s of Inl e \<Rightarrow> Inl e | Inr s' \<Rightarrow> Inr (0, s'))"
  by (simp add: decode_digit_def range_10 str_0)

lemma negative_zero_prefix: "decode (''i-0'' @ rest) = Inl (ValueError Negative_zero)"
  by (simp add: decode_def Decoder_def decode_bencode.simps decode_int_def consume_def
      decode_snum_def char_isdigit_def isdigit_def)

lemma leading_zero_int_prefix:
  "isdigit c \<Longrightarrow> decode (''i0'' @ c # rest) = Inl (ValueError Leading_zeros)"
  by (simp add: decode_def Decoder_def decode_bencode.simps decode_int_def consume_def
      decode_snum_def decode_num_def decode_digit_zero char_isdigit_def isdigit_def)

lemma leading_zero_length_prefix:
  "isdigit c \<Longrightarrow> decode (''0'' @ c # rest) = Inl (ValueError Leading_zeros)"
  by (simp add: decode_def Decoder_def decode_bencode.simps decode_str_def consume_def
      decode_num_def decode_digit_zero char_isdigit_def isdigit_def)

lemma missing_digits_after_i:
  "rest = [] \<or> (\<not> isdigit (hd rest) \<and> hd rest \<noteq> CHR ''-'') \<Longrightarrow>
   decode (''i'' @ rest) = Inl (ValueError Not_bencoding)"
  by (cases rest)
     (auto simp: decode_def Decoder_def decode_bencode.simps decode_int_def consume_def
      decode_snum_def char_isdigit_def)

lemma missing_digits_after_minus:
  "rest = [] \<or> \<not> isdigit (hd rest) \<Longrightarrow>
   decode (''i-'' @ rest) = Inl (ValueError No_digit)"
  by (cases rest)
     (auto simp: decode_def Decoder_def decode_bencode.simps decode_int_def consume_def
      decode_snum_def decode_num_def decode_digits.simps char_isdigit_def isdigit_def)

section \<open>Dictionaries with complete pairs\<close>

lemma map_of_dict_set_other:
  "x \<noteq> k \<Longrightarrow>
   map_of (map (\<lambda>(k', v'). if k' = k then (k', v) else (k', v')) d) x = map_of d x"
  by (induction d) (simp_all add: case_prod_beta)

lemma map_of_dict_set_same:
  "k \<in> fst ` set d \<Longrightarrow>
   map_of (map (\<lambda>(k', v'). if k' = k then (k', v) else (k', v')) d) k = Some v"
  by (induction d) (auto simp: case_prod_beta)

lemma map_of_dict_set: "map_of (dict_set d k v) = (map_of d)(k \<mapsto> v)"
proof (cases "k \<in> fst ` set d")
  case True
  show ?thesis
  proof
    fix x
    show "map_of (dict_set d k v) x = ((map_of d)(k \<mapsto> v)) x"
      using True map_of_dict_set_other [of x k v d] map_of_dict_set_same [OF True, of v]
      by (cases "x = k") (simp_all add: dict_set_def)
  qed
next
  case False
  then have "map_of d k = None" by (simp add: map_of_eq_None_iff)
  with False show ?thesis
    by (auto simp: dict_set_def fun_eq_iff map_add_def split: option.splits)
qed

lemma dict_set_keys:
  "map fst (dict_set d k v) = (if k \<in> fst ` set d then map fst d else map fst d @ [k])"
  by (auto simp: dict_set_def split: prod.splits)

lemma dict_set_distinct: "distinct (map fst d) \<Longrightarrow> distinct (map fst (dict_set d k v))"
  by (auto simp: dict_set_keys)

lemma foldl_dict_set_map_of:
  "map_of (foldl (\<lambda>d (key, v). dict_set d key v) acc ps) = map_of (rev ps @ acc)"
proof (induction ps arbitrary: acc)
  case Nil
  then show ?case by simp
next
  case (Cons p ps)
  obtain key v where p: "p = (key, v)" by (cases p)
  have "map_of (rev ps @ dict_set acc key v) = map_of (rev ps @ (key, v) # acc)"
    by (simp add: map_of_dict_set)
  with Cons.IH [of "dict_set acc key v"] p show ?case by simp
qed

lemma foldl_dict_set_distinct:
  "distinct (map fst acc) \<Longrightarrow>
   distinct (map fst (foldl (\<lambda>d (key, v). dict_set d key v) acc ps))"
  by (induction ps arbitrary: acc) (auto simp: dict_set_distinct split: prod.splits)

lemma decode_dict_loop_closed:
  "list_all2 encodes_pair kbs ps \<Longrightarrow> kbs \<noteq> [] \<Longrightarrow>
   decode_dict_loop acc
     (cursor_at (pre @ concat (map (\<lambda>(k, b). k @ b) kbs) @ ''e'' @ post) (length pre)) =
   Inr (foldl (\<lambda>d (key, v). dict_set d key v) acc ps,
        cursor_at (pre @ concat (map (\<lambda>(k, b). k @ b) kbs) @ ''e'' @ post)
          (length pre + length (concat (map (\<lambda>(k, b). k @ b) kbs))))"
proof (induction kbs ps arbitrary: pre acc rule: list_all2_induct)
  case Nil
  then show ?case by simp
next
  case (Cons kb kbs p ps)
  obtain k b where kb: "kb = (k, b)" by (cases kb)
  obtain key v where p: "p = (key, v)" by (cases p)
  from Cons.hyps(1) kb p have k: "decode k = Inr (BBytes key)" and v: "decode b = Inr v"
    by (simp_all add: encodes_pair_def)
  from decode_Inr_hd [OF k] have ne: "k \<noteq> []" by simp
  let ?rest = "concat (map (\<lambda>(k, b). k @ b) kbs)"
  let ?d = "pre @ k @ b @ ?rest @ ''e'' @ post"
  have segk: "decode_str (cursor_at ?d (length pre)) =
      Inr (key, cursor_at ?d (length pre + length k))"
    using decode_str_segment [OF k, of pre "b @ ?rest @ ''e'' @ post"] by simp
  have segv: "decode_bencode (cursor_at ?d (length pre + length k)) =
      Inr (v, cursor_at ?d (length pre + length k + length b))"
    using decode_segment [OF v, of "pre @ k" "?rest @ ''e'' @ post"] by simp
  have c0: "char (cursor_at ?d (length pre)) \<noteq> None"
    using ne by (simp add: cursor_at_char)
  show ?case
  proof (cases "kbs = []")
    case True
    have "char (cursor_at ?d (length pre + length k + length b)) = Some CHR ''e''"
      using cursor_at_end_char [of "pre @ k @ b" "?rest @ ''e'' @ post"] True
      by (simp add: add.assoc)
    with segk segv c0 True Cons.hyps(2) show ?thesis
      by (subst decode_dict_loop.simps) (auto simp: kb p add.assoc)
  next
    case False
    have "b' \<noteq> [] \<and> hd b' \<noteq> CHR ''e''" if "b' \<in> set (map (\<lambda>(k, b). k @ b) kbs)" for b'
    proof -
      from that obtain kb1 where in_kbs: "kb1 \<in> set kbs" and b': "b' = fst kb1 @ snd kb1"
        by (auto split: prod.splits)
      from in_kbs Cons.hyps(2) obtain p1 where "encodes_pair kb1 p1"
        by (metis in_set_conv_nth list_all2_conv_all_nth)
      then have "decode (fst kb1) = Inr (BBytes (fst p1))" by (simp add: encodes_pair_def)
      from decode_Inr_hd [OF this] b' show ?thesis by simp
    qed
    then have all: "\<forall>b\<in>set (map (\<lambda>(k, b). k @ b) kbs). b \<noteq> [] \<and> hd b \<noteq> CHR ''e''"
      by blast
    from False obtain kb1 kbs' where kbs: "kbs = kb1 # kbs'" by (cases kbs) auto
    with all have "fst kb1 @ snd kb1 \<noteq> [] \<and> hd (fst kb1 @ snd kb1) \<noteq> CHR ''e''"
      by (simp add: case_prod_beta)
    then have nx: "?rest @ ''e'' @ post = [] \<or> hd (?rest @ ''e'' @ post) \<noteq> CHR ''e''"
      by (auto simp: kbs case_prod_beta hd_append)
    have c1: "char (cursor_at ?d (length pre + length k + length b)) \<noteq> Some CHR ''e''"
      using cursor_at_end_not_e [where xs = "pre @ k @ b", OF nx]
      by (simp add: add.assoc)
    from Cons.IH [where pre = "pre @ k @ b" and acc = "dict_set acc key v", OF False]
    have "decode_dict_loop (dict_set acc key v) (cursor_at ?d (length pre + length k + length b)) =
      Inr (foldl (\<lambda>d (key, v). dict_set d key v) (dict_set acc key v) ps,
           cursor_at ?d (length pre + length k + length b + length ?rest))"
      by (simp add: add.assoc)
    with segk segv c0 c1 show ?thesis
      by (subst decode_dict_loop.simps) (auto simp: kb p add.assoc)
  qed
qed

lemma decode_closed_dict:
  assumes "list_all2 encodes_pair kbs ps" "kbs \<noteq> []"
  shows "decode (''d'' @ concat (map (\<lambda>(k, b). k @ b) kbs) @ ''e'') =
    Inr (BDict (foldl (\<lambda>d (key, v). dict_set d key v) [] ps))"
proof -
  let ?body = "concat (map (\<lambda>(k, b). k @ b) kbs)"
  let ?d = "''d'' @ ?body @ ''e''"
  have c: "consume CHR ''d'' (cursor_at ?d 0) = Inr (cursor_at ?d (Suc 0))"
    by (rule consume_cursor_at) simp_all
  have l: "decode_dict_loop [] (cursor_at ?d (Suc 0)) =
    Inr (foldl (\<lambda>d (key, v). dict_set d key v) [] ps, cursor_at ?d (Suc (length ?body)))"
    using decode_dict_loop_closed [OF assms, of "[]" "''d''" "[]"] by simp
  have e: "consume CHR ''e'' (cursor_at ?d (Suc (length ?body))) =
    Inr (cursor_at ?d (Suc (Suc (length ?body))))"
    by (rule consume_cursor_at) (simp_all add: nth_append)
  from c l e have "decode_dict (cursor_at ?d 0) =
    Inr (foldl (\<lambda>d (key, v). dict_set d key v) [] ps, cursor_at ?d (Suc (Suc (length ?body))))"
    by (subst decode_dict.simps) simp
  then have "decode_bencode (cursor_at ?d 0) =
    Inr (BDict (foldl (\<lambda>d (key, v). dict_set d key v) [] ps),
         cursor_at ?d (Suc (Suc (length ?body))))"
    by (subst decode_bencode.simps) (simp add: cursor_at_char)
  then show ?thesis
    by (simp add: decode_def Decoder_cursor_at cursor_at_char)
qed

section \<open>The position that an error reports\<close>

lemma offset_ok_later:
  "offset_ok s1 e \<Longrightarrow> data s1 = data s \<Longrightarrow> index s \<le> index s1 \<Longrightarrow> offset_ok s e"
  by (auto simp: offset_ok_def split: error.splits message.splits)

lemma offset_ok_simps [simp]:
  "offset_ok s IndexError"
  "offset_ok s (ValueError Not_bencoding)"
  "offset_ok s (ValueError Unexpected_end_dict)"
  "offset_ok s (ValueError Unexpected_end_list)"
  "offset_ok s (ValueError Negative_zero)"
  "offset_ok s (ValueError Leading_zeros)"
  "offset_ok s (ValueError No_digit)"
  by (simp_all add: offset_ok_def)

lemma consume_offset: "cursor_inv s \<Longrightarrow> consume c s = Inl e \<Longrightarrow> offset_ok s e"
  by (auto simp: consume_def offset_ok_def cursor_inv_def split: if_splits)

lemma decode_char_offset: "decode_char s = Inl e \<Longrightarrow> offset_ok s e"
  by (auto simp: decode_char_def split: if_splits)

lemma decode_digit_range_offset:
  "cursor_inv s \<Longrightarrow> decode_digit_range ns s = Inl e \<Longrightarrow> offset_ok s e"
  by (induction ns) (auto split: if_splits sum.splits dest: consume_offset)

lemma decode_digit_offset: "cursor_inv s \<Longrightarrow> decode_digit s = Inl e \<Longrightarrow> offset_ok s e"
  unfolding decode_digit_def by (rule decode_digit_range_offset)

lemma decode_digits_offset:
  "cursor_inv s \<Longrightarrow> decode_digits num s = Inl e \<Longrightarrow> offset_ok s e"
proof (induction num s rule: decode_digits.induct)
  case (1 num s)
  show ?case
  proof (cases "decode_digit s")
    case (Inl e')
    with "1.prems" show ?thesis
      by (subst (asm) decode_digits.simps) (auto split: if_splits dest: decode_digit_offset)
  next
    case (Inr r)
    obtain d s1 where r: "r = (d, s1)" by (cases r)
    from "1.prems"(2) Inr r have dg: "char_isdigit (char s)"
      and rec: "decode_digits (num @ [str d]) s1 = Inl e"
      by (subst (asm) decode_digits.simps, auto split: if_splits)+
    from decode_digit_inv [OF "1.prems"(1)] Inr r
    have s1: "cursor_inv s1" "data s1 = data s" "index s1 = index s + 1" by auto
    from "1.IH" [OF dg _ refl s1(1) rec] Inr r have "offset_ok s1 e" by simp
    with s1 show ?thesis by (auto intro: offset_ok_later)
  qed
qed

lemma decode_num_offset: "cursor_inv s \<Longrightarrow> decode_num s = Inl e \<Longrightarrow> offset_ok s e"
  by (auto simp: decode_num_def split: if_splits sum.splits
      dest: decode_digit_offset decode_digits_offset)

lemma decode_snum_offset:
  assumes "cursor_inv s" "decode_snum s = Inl e"
  shows "offset_ok s e"
proof (cases "char_isdigit (char s)")
  case True
  with assms show ?thesis by (auto simp: decode_snum_def dest: decode_num_offset)
next
  case nd: False
  show ?thesis
  proof (cases "consume CHR ''-'' s")
    case (Inl e')
    with nd assms show ?thesis
      by (auto simp: decode_snum_def split: if_splits dest: consume_offset)
  next
    case (Inr s1)
    from consume_inv [OF assms(1) Inr]
    have s1: "cursor_inv s1" "data s1 = data s" "index s1 = index s + 1" by auto
    from nd assms(2) Inr have "offset_ok s1 e"
      by (auto simp: decode_snum_def split: if_splits sum.splits dest: decode_num_offset [OF s1(1)])
    with s1 show ?thesis by (auto intro: offset_ok_later)
  qed
qed

lemma decode_int_offset:
  assumes "cursor_inv s" "decode_int s = Inl e"
  shows "offset_ok s e"
proof (cases "consume CHR ''i'' s")
  case (Inl e')
  with assms show ?thesis by (auto simp: decode_int_def dest: consume_offset)
next
  case (Inr s1)
  from consume_inv [OF assms(1) Inr]
  have s1: "cursor_inv s1" "data s1 = data s" "index s1 = index s + 1" by auto
  show ?thesis
  proof (cases "decode_snum s1")
    case (Inl e')
    with Inr assms(2) decode_snum_offset [OF s1(1)] have "offset_ok s1 e"
      by (auto simp: decode_int_def)
    with s1 show ?thesis by (auto intro: offset_ok_later)
  next
    case b: (Inr r)
    obtain n s2 where r: "r = (n, s2)" by (cases r)
    from decode_snum_inv [OF s1(1)] b r
    have s2: "cursor_inv s2" "data s2 = data s1" "index s1 < index s2" by auto
    from Inr b r assms(2) consume_offset [OF s2(1)] have "offset_ok s2 e"
      by (auto simp: decode_int_def split: sum.splits)
    with s1 s2 show ?thesis by (auto intro: offset_ok_later)
  qed
qed

lemma decode_chars_offset: "decode_chars n acc s = Inl e \<Longrightarrow> e = IndexError"
  by (induction n arbitrary: acc s) (auto simp: decode_char_def split: sum.splits if_splits)

lemma decode_str_offset:
  assumes "cursor_inv s" "decode_str s = Inl e"
  shows "offset_ok s e"
proof (cases "decode_num s")
  case (Inl e')
  with assms show ?thesis by (auto simp: decode_str_def dest: decode_num_offset)
next
  case (Inr r)
  obtain n s1 where r: "r = (n, s1)" by (cases r)
  from decode_num_inv [OF assms(1)] Inr r
  have s1: "cursor_inv s1" "data s1 = data s" "index s < index s1" by auto
  show ?thesis
  proof (cases "consume CHR '':'' s1")
    case (Inl e')
    with Inr r assms(2) consume_offset [OF s1(1)] have "offset_ok s1 e"
      by (auto simp: decode_str_def)
    with s1 show ?thesis by (auto intro: offset_ok_later)
  next
    case c: (Inr s2)
    with Inr r assms(2) have "decode_chars (nat n) [] s2 = Inl e"
      by (auto simp: decode_str_def)
    from decode_chars_offset [OF this] show ?thesis by simp
  qed
qed

lemma decode_offset:
  "cursor_inv s \<Longrightarrow> decode_bencode s = Inl e \<Longrightarrow> offset_ok s e"
  "cursor_inv s2 \<Longrightarrow> decode_dict s2 = Inl e \<Longrightarrow> offset_ok s2 e"
  "cursor_inv s3 \<Longrightarrow> decode_dict_loop d s3 = Inl e \<Longrightarrow> offset_ok s3 e"
  "cursor_inv s4 \<Longrightarrow> decode_list s4 = Inl e \<Longrightarrow> offset_ok s4 e"
  "cursor_inv s5 \<Longrightarrow> decode_list_loop l s5 = Inl e \<Longrightarrow> offset_ok s5 e"
proof (induct s and s2 and d s3 and s4 and l s5
    rule: decode_bencode_decode_dict_decode_dict_loop_decode_list_decode_list_loop.induct)
  case (1 s)
  show ?case
  proof (cases "char s = Some CHR ''d''")
    case True
    with "1.prems"(2) have "decode_dict s = Inl e"
      by (subst (asm) decode_bencode.simps) (auto split: sum.splits)
    from "1.hyps"(1) [OF True "1.prems"(1) this] show ?thesis .
  next
    case nd: False
    show ?thesis
    proof (cases "char s = Some CHR ''l''")
      case True
      with nd "1.prems"(2) have "decode_list s = Inl e"
        by (subst (asm) decode_bencode.simps) (auto split: sum.splits)
      from "1.hyps"(2) [OF nd True "1.prems"(1) this] show ?thesis .
    next
      case False
      with nd "1.prems" show ?thesis
        by (subst (asm) decode_bencode.simps)
           (auto split: if_splits sum.splits dest: decode_int_offset decode_str_offset)
    qed
  qed
next
  case (2 s)
  show ?case
  proof (cases "consume CHR ''d'' s")
    case (Inl e')
    with "2.prems" show ?thesis
      by (subst (asm) decode_dict.simps) (auto dest: consume_offset)
  next
    case (Inr s1)
    from consume_inv [OF "2.prems"(1) Inr]
    have s1: "cursor_inv s1" "data s1 = data s" "index s1 = index s + 1" by auto
    show ?thesis
    proof (cases "decode_dict_loop [] s1")
      case (Inl e')
      with Inr "2.prems"(2) have "e' = e"
        by (subst (asm) decode_dict.simps) simp
      with "2.hyps" [OF Inr s1(1)] Inl have "offset_ok s1 e" by simp
      with s1 show ?thesis by (auto intro: offset_ok_later)
    next
      case b: (Inr r)
      obtain dv s2 where r: "r = (dv, s2)" by (cases r)
      from decode_inv(3) [OF s1(1)] b r
      have s2: "cursor_inv s2" "data s2 = data s1" "index s1 < index s2" by auto
      from Inr b r "2.prems"(2) have "consume CHR ''e'' s2 = Inl e"
        by (subst (asm) decode_dict.simps) (auto split: sum.splits)
      from consume_offset [OF s2(1) this] s1 s2 show ?thesis
        by (auto intro: offset_ok_later)
    qed
  qed
next
  case (3 dictionary s)
  show ?case
  proof (cases "char s = None")
    case True
    with "3.prems" show ?thesis
      by (subst (asm) decode_dict_loop.simps) auto
  next
    case ne: False
    show ?thesis
    proof (cases "decode_str s")
      case (Inl e')
      with ne "3.prems" show ?thesis
        by (subst (asm) decode_dict_loop.simps) (auto dest: decode_str_offset)
    next
      case (Inr r)
      obtain key s1 where r: "r = (key, s1)" by (cases r)
      from decode_str_inv [OF "3.prems"(1)] Inr r
      have s1: "cursor_inv s1" "data s1 = data s" "index s < index s1" by auto
      show ?thesis
      proof (cases "decode_bencode s1")
        case (Inl e')
        with ne Inr r "3.prems"(2) have "e' = e"
          by (subst (asm) decode_dict_loop.simps) auto
        with "3.hyps"(1) [OF ne Inr r [symmetric] s1(1)] Inl have "offset_ok s1 e" by simp
        with s1 show ?thesis by (auto intro: offset_ok_later)
      next
        case b: (Inr r2)
        obtain val s2 where r2: "r2 = (val, s2)" by (cases r2)
        from decode_inv(1) [OF s1(1)] b r2
        have s2: "cursor_inv s2" "data s2 = data s1" "index s1 < index s2" by auto
        from ne Inr r b r2 "3.prems"(2)
        have ne2: "char s2 \<noteq> Some CHR ''e''"
          and rec: "decode_dict_loop (dict_set dictionary key val) s2 = Inl e"
          by (subst (asm) decode_dict_loop.simps, auto split: if_splits)+
        from "3.hyps"(2) [OF ne Inr r [symmetric] b r2 [symmetric] ne2 s2(1) rec] s1 s2
        show ?thesis by (auto intro: offset_ok_later)
      qed
    qed
  qed
next
  case (4 s)
  show ?case
  proof (cases "consume CHR ''l'' s")
    case (Inl e')
    with "4.prems" show ?thesis
      by (subst (asm) decode_list.simps) (auto dest: consume_offset)
  next
    case (Inr s1)
    from consume_inv [OF "4.prems"(1) Inr]
    have s1: "cursor_inv s1" "data s1 = data s" "index s1 = index s + 1" by auto
    show ?thesis
    proof (cases "decode_list_loop [] s1")
      case (Inl e')
      with Inr "4.prems"(2) have "e' = e"
        by (subst (asm) decode_list.simps) simp
      with "4.hyps" [OF Inr s1(1)] Inl have "offset_ok s1 e" by simp
      with s1 show ?thesis by (auto intro: offset_ok_later)
    next
      case b: (Inr r)
      obtain lv s2 where r: "r = (lv, s2)" by (cases r)
      from decode_inv(5) [OF s1(1)] b r
      have s2: "cursor_inv s2" "data s2 = data s1" "index s1 < index s2" by auto
      from Inr b r "4.prems"(2) have "consume CHR ''e'' s2 = Inl e"
        by (subst (asm) decode_list.simps) (auto split: sum.splits)
      from consume_offset [OF s2(1) this] s1 s2 show ?thesis
        by (auto intro: offset_ok_later)
    qed
  qed
next
  case (5 b_list s)
  show ?case
  proof (cases "char s = None")
    case True
    with "5.prems" show ?thesis
      by (subst (asm) decode_list_loop.simps) auto
  next
    case ne: False
    show ?thesis
    proof (cases "decode_bencode s")
      case (Inl e')
      with ne "5.prems"(2) have "e' = e"
        by (subst (asm) decode_list_loop.simps) auto
      with "5.hyps"(1) [OF ne "5.prems"(1)] Inl show ?thesis by simp
    next
      case b: (Inr r)
      obtain val s1 where r: "r = (val, s1)" by (cases r)
      from decode_inv(1) [OF "5.prems"(1)] b r
      have s1: "cursor_inv s1" "data s1 = data s" "index s < index s1" by auto
      from ne b r "5.prems"(2)
      have ne2: "char s1 \<noteq> Some CHR ''e''"
        and rec: "decode_list_loop (b_list @ [val]) s1 = Inl e"
        by (subst (asm) decode_list_loop.simps, auto split: if_splits)+
      from "5.hyps"(2) [OF ne b r [symmetric] ne2 s1(1) rec] s1
      show ?thesis by (auto intro: offset_ok_later)
    qed
  qed
qed

lemma decode_expected_offset:
  assumes "decode bs = Inl (ValueError (Expected c i got))"
  shows "i \<le> length bs \<and> got = (if i < length bs then Some (bs ! i) else None) \<and> got \<noteq> Some c"
proof -
  from assms have ne: "bs \<noteq> []"
    by (auto simp: decode_def Decoder_def split: if_splits)
  with assms have "decode_bencode (cursor_at bs 0) = Inl (ValueError (Expected c i got))"
    by (auto simp: decode_def Decoder_cursor_at split: sum.splits if_splits)
  from decode_offset(1) [OF cursor_inv_cursor_at this] show ?thesis
    by (auto simp: offset_ok_def split: if_splits)
qed

section \<open>The claims\<close>

subsection \<open>Truncated strings\<close>

lemma decode_chars_truncated:
  "cursor_inv s \<Longrightarrow> length (data s) - index s < n \<Longrightarrow> decode_chars n acc s = Inl IndexError"
proof (induction n arbitrary: acc s)
  case 0
  then show ?case by simp
next
  case (Suc n)
  show ?case
  proof (cases "index s < length (data s)")
    case True
    then obtain c s1 where c: "decode_char s = Inr (c, s1)"
      by (auto simp: decode_char_def)
    from decode_char_inv [OF Suc.prems(1) c] Suc.prems(2) True
    have "cursor_inv s1" "length (data s1) - index s1 < n" by auto
    from Suc.IH [OF this] c show ?thesis by simp
  next
    case False
    then show ?thesis by (simp add: decode_char_def)
  qed
qed

lemma decode_str_truncated:
  assumes "cursor_inv s" "decode_num s = Inr (n, s1)" "consume CHR '':'' s1 = Inr s2"
    "length (data s) - index s2 < nat n"
  shows "decode_str s = Inl IndexError"
proof -
  from decode_num_inv [OF assms(1,2)] have s1: "cursor_inv s1" "data s1 = data s" by simp_all
  from consume_inv [OF s1(1) assms(3)] s1(2) have s2: "cursor_inv s2" "data s2 = data s"
    by simp_all
  from decode_chars_truncated [OF s2(1), of "nat n" "[]"] assms(4) s2(2)
  have "decode_chars (nat n) [] s2 = Inl IndexError" by simp
  with assms(2,3) show ?thesis by (simp add: decode_str_def)
qed

text \<open>
  Claim C1. The claim asks that a byte string whose declared length exceeds the bytes left in
  the buffer, such as \<^verbatim>\<open>5:ab\<close>, is refused with an error of the decoder's own. The source
  reads \<^verbatim>\<open>self._data[self._index]\<close> in \<^verbatim>\<open>_decode_char\<close> with no test of the index, so what
  leaves \<^verbatim>\<open>decode\<close> is the \<^verbatim>\<open>IndexError\<close> of the interpreter and no \<^verbatim>\<open>ValueError\<close>.
\<close>

theorem decode_truncated_string_index_error: "decode ''5:ab'' = Inl IndexError"
  by code_simp

subsection \<open>Empty containers\<close>

lemma decode_de: "decode ''de'' = Inl (ValueError No_digit)"
  by code_simp

lemma decode_le: "decode ''le'' = Inl (ValueError Not_bencoding)"
  by code_simp

text \<open>
  Claim C2. The empty dictionary \<^verbatim>\<open>de\<close> and the empty list \<^verbatim>\<open>le\<close> are refused with a
  \<^verbatim>\<open>ValueError\<close> of the grammar (no digit where the key should start, no value where the
  element should start), and no value that \<^verbatim>\<open>decode\<close> returns has an empty list or an empty
  dictionary anywhere inside it.
\<close>

theorem empty_containers_rejected:
  "decode ''de'' = Inl (ValueError No_digit) \<and>
   decode ''le'' = Inl (ValueError Not_bencoding) \<and>
   (\<forall>bs v. decode bs = Inr v \<longrightarrow> nonempty_containers v)"
  using decode_de decode_le decode_result_nonempty_containers by blast

theorem empty_containers_rejected_witness:
  "decode ''l4:spam4:eggse'' = Inr (BList [BBytes ''spam'', BBytes ''eggs'']) \<and>
   nonempty_containers (BList [BBytes ''spam'', BBytes ''eggs''])"
  using empty_containers_rejected decode_spam_eggs by blast

subsection \<open>Well-formed inputs\<close>


subsection \<open>Lexical rules of integers and lengths\<close>

lemma decode_i_minus_0_e: "decode ''i-0e'' = Inl (ValueError Negative_zero)"
  by code_simp

lemma decode_i03e: "decode ''i03e'' = Inl (ValueError Leading_zeros)"
  by code_simp

lemma decode_i0e: "decode ''i0e'' = Inr (BInt 0)"
  by code_simp

lemma decode_0_colon: "decode ''0:'' = Inr (BBytes [])"
  by code_simp

lemma decode_00_colon: "decode ''00:'' = Inl (ValueError Leading_zeros)"
  by code_simp

lemma decode_ie: "decode ''ie'' = Inl (ValueError Not_bencoding)"
  by code_simp

lemma decode_i_minus_e: "decode ''i-e'' = Inl (ValueError No_digit)"
  by code_simp

lemma signed_length_prefix: "decode (''-'' @ rest) = Inl (ValueError Not_bencoding)"
  by (simp add: decode_def Decoder_def decode_bencode.simps char_isdigit_def isdigit_def)

text \<open>
  Claim C4. \<^verbatim>\<open>i-0e\<close> is refused as a negative zero; \<^verbatim>\<open>i03e\<close> is refused for its leading
  zero while \<^verbatim>\<open>i0e\<close> is the integer 0; \<^verbatim>\<open>0:\<close> is the empty byte string while \<^verbatim>\<open>00:\<close> is
  refused for its leading zero; \<^verbatim>\<open>ie\<close> and \<^verbatim>\<open>i-e\<close> are refused for their missing digits.
  In general, whatever follows: an integer that starts \<^verbatim>\<open>-0\<close> is a negative zero; a zero
  followed by a digit, in an integer or in a length, is a leading zero; an \<^verbatim>\<open>i\<close> or an
  \<^verbatim>\<open>i-\<close> not followed by a digit is refused by the grammar, and so is a length with a
  sign.
\<close>

theorem integer_and_length_lexical_rules:
  "(decode ''i-0e'' = Inl (ValueError Negative_zero) \<and>
    decode ''i03e'' = Inl (ValueError Leading_zeros) \<and>
    decode ''i0e'' = Inr (BInt 0) \<and>
    decode ''0:'' = Inr (BBytes []) \<and>
    decode ''00:'' = Inl (ValueError Leading_zeros) \<and>
    decode ''ie'' = Inl (ValueError Not_bencoding) \<and>
    decode ''i-e'' = Inl (ValueError No_digit)) \<and>
   (\<forall>rest. decode (''i-0'' @ rest) = Inl (ValueError Negative_zero)) \<and>
   (\<forall>c rest. isdigit c \<longrightarrow> decode (''i0'' @ c # rest) = Inl (ValueError Leading_zeros)) \<and>
   (\<forall>c rest. isdigit c \<longrightarrow> decode (''0'' @ c # rest) = Inl (ValueError Leading_zeros)) \<and>
   (\<forall>rest. rest = [] \<or> (\<not> isdigit (hd rest) \<and> hd rest \<noteq> CHR ''-'') \<longrightarrow>
      decode (''i'' @ rest) = Inl (ValueError Not_bencoding)) \<and>
   (\<forall>rest. rest = [] \<or> \<not> isdigit (hd rest) \<longrightarrow>
      decode (''i-'' @ rest) = Inl (ValueError No_digit)) \<and>
   (\<forall>rest. decode (''-'' @ rest) = Inl (ValueError Not_bencoding))"
  by (intro conjI allI impI decode_i_minus_0_e decode_i03e decode_i0e decode_0_colon
      decode_00_colon decode_ie decode_i_minus_e negative_zero_prefix leading_zero_int_prefix
      leading_zero_length_prefix missing_digits_after_i missing_digits_after_minus
      signed_length_prefix;
      assumption)

theorem integer_and_length_lexical_rules_witness:
  "isdigit CHR ''4'' \<and>
   decode (''i0'' @ CHR ''4'' # ''2e'') = Inl (ValueError Leading_zeros) \<and>
   decode (''0'' @ CHR ''4'' # '':abcd'') = Inl (ValueError Leading_zeros) \<and>
   \<not> isdigit (hd ''xe'') \<and> hd ''xe'' \<noteq> CHR ''-'' \<and>
   decode (''i'' @ ''xe'') = Inl (ValueError Not_bencoding) \<and>
   decode (''i-'' @ ''xe'') = Inl (ValueError No_digit)"
proof -
  have d: "isdigit CHR ''4''" and x: "\<not> isdigit (hd ''xe'')" "hd ''xe'' \<noteq> CHR ''-''"
    by (simp_all add: isdigit_def)
  from integer_and_length_lexical_rules
  have a: "\<forall>c rest. isdigit c \<longrightarrow> decode (''i0'' @ c # rest) = Inl (ValueError Leading_zeros)"
    by (elim conjE)
  from integer_and_length_lexical_rules
  have b: "\<forall>c rest. isdigit c \<longrightarrow> decode (''0'' @ c # rest) = Inl (ValueError Leading_zeros)"
    by (elim conjE)
  from integer_and_length_lexical_rules
  have c: "\<forall>rest. rest = [] \<or> (\<not> isdigit (hd rest) \<and> hd rest \<noteq> CHR ''-'') \<longrightarrow>
      decode (''i'' @ rest) = Inl (ValueError Not_bencoding)"
    by (elim conjE)
  from integer_and_length_lexical_rules
  have e: "\<forall>rest. rest = [] \<or> \<not> isdigit (hd rest) \<longrightarrow>
      decode (''i-'' @ rest) = Inl (ValueError No_digit)"
    by (elim conjE)
  from a d have "decode (''i0'' @ CHR ''4'' # ''2e'') = Inl (ValueError Leading_zeros)"
    by blast
  moreover from b d have "decode (''0'' @ CHR ''4'' # '':abcd'') = Inl (ValueError Leading_zeros)"
    by blast
  moreover from c x have "decode (''i'' @ ''xe'') = Inl (ValueError Not_bencoding)"
    by blast
  moreover from e x have "decode (''i-'' @ ''xe'') = Inl (ValueError No_digit)"
    by blast
  ultimately show ?thesis using d x by blast
qed

subsection \<open>Trailing data\<close>

lemma decode_i3e_garbage: "decode ''i3e garbage'' = Inl (ValueError Extra_data)"
  by code_simp

lemma decode_Inr_cursor:
  assumes "decode bs = Inr v"
  shows "\<exists>s0 s. Decoder bs = Inr s0 \<and> decode_bencode s0 = Inr (v, s) \<and>
    data s = bs \<and> index s = length bs \<and> char s = None"
proof -
  from decode_Inr_run [OF assms] have "bs \<noteq> []"
    and "decode_bencode (cursor_at bs 0) = Inr (v, cursor_at bs (length bs))" by simp_all
  then show ?thesis
    by (intro exI [of _ "cursor_at bs 0"] exI [of _ "cursor_at bs (length bs)"])
       (simp add: Decoder_cursor_at cursor_at_char)
qed

lemma decode_bytes_left:
  assumes "Decoder bs = Inr s0" "decode_bencode s0 = Inr (v, s)" "index s < length bs"
  shows "decode bs = Inl (ValueError Extra_data)"
proof -
  from Decoder_inv [OF assms(1)] have "cursor_inv s0" "data s0 = bs" by simp_all
  with decode_inv(1) [OF _ assms(2)] have "cursor_inv s" "data s = bs" by simp_all
  with assms(3) have "char s \<noteq> None" by (simp add: cursor_inv_def)
  with assms(1,2) show ?thesis by (simp add: decode_def)
qed

text \<open>
  Claim C5. When \<^verbatim>\<open>decode\<close> returns a value, the one value was decoded from the whole buffer
  and the cursor stands at its end, with the end-of-input lookahead. When the top-level value
  is complete and bytes are left, \<^verbatim>\<open>decode\<close> fails with the error for extra data: so does
  every accepted input followed by at least one more byte, \<^verbatim>\<open>i3e garbage\<close> among them.
\<close>

theorem decode_consumes_whole_buffer:
  "(\<forall>bs v. decode bs = Inr v \<longrightarrow>
      (\<exists>s0 s. Decoder bs = Inr s0 \<and> decode_bencode s0 = Inr (v, s) \<and>
         data s = bs \<and> index s = length bs \<and> char s = None)) \<and>
   (\<forall>bs s0 v s. Decoder bs = Inr s0 \<and> decode_bencode s0 = Inr (v, s) \<and> index s < length bs \<longrightarrow>
      decode bs = Inl (ValueError Extra_data)) \<and>
   (\<forall>bs v extra. decode bs = Inr v \<and> extra \<noteq> [] \<longrightarrow>
      decode (bs @ extra) = Inl (ValueError Extra_data)) \<and>
   decode ''i3e garbage'' = Inl (ValueError Extra_data)"
  using decode_Inr_cursor decode_bytes_left decode_trailing decode_i3e_garbage by blast

theorem decode_consumes_whole_buffer_witness:
  "decode ''i3e'' = Inr (BInt 3) \<and> '' garbage'' \<noteq> [] \<and>
   decode (''i3e'' @ '' garbage'') = Inl (ValueError Extra_data) \<and>
   (\<exists>s0 s. Decoder ''i3e'' = Inr s0 \<and> decode_bencode s0 = Inr (BInt 3, s) \<and>
      data s = ''i3e'' \<and> index s = length ''i3e'' \<and> char s = None)"
proof -
  have ne: "'' garbage'' \<noteq> []" by simp
  from decode_consumes_whole_buffer decode_three ne show ?thesis by blast
qed

subsection \<open>Empty input\<close>

lemma decode_Nil: "decode [] = Inl (ValueError Empty_data)"
  by (simp add: decode_def Decoder_def)

text \<open>
  Claim C6. The empty buffer is refused with the error for empty data, and no buffer that has
  a byte is refused with that error.
\<close>

theorem empty_input_error:
  "decode [] = Inl (ValueError Empty_data) \<and>
   (\<forall>bs. bs \<noteq> [] \<longrightarrow> decode bs \<noteq> Inl (ValueError Empty_data))"
  using decode_Nil decode_nonempty_not_Empty_data by blast

theorem empty_input_error_witness:
  "''le'' \<noteq> [] \<and> decode ''le'' \<noteq> Inl (ValueError Empty_data)"
proof -
  have ne: "''le'' \<noteq> []" by simp
  from empty_input_error ne show ?thesis by blast
qed

subsection \<open>Containers without their terminator\<close>

lemma decode_li3e: "decode ''li3e'' = Inl (ValueError Unexpected_end_list)"
  by code_simp

lemma decode_d_cow_moo: "decode ''d3:cow3:moo'' = Inl (ValueError Unexpected_end_dict)"
  by code_simp

lemma unterminated_message:
  "unterminated x m \<Longrightarrow> m = Unexpected_end_list \<or> m = Unexpected_end_dict"
  by (induction rule: unterminated.induct) auto

lemma unterminated_li3e: "unterminated ''li3e'' Unexpected_end_list"
  using list_end [of "[''i3e'']"] decode_three by simp

lemma unterminated_d_cow_moo: "unterminated ''d3:cow3:moo'' Unexpected_end_dict"
proof -
  have "decode ''3:cow'' = Inr (BBytes ''cow'')" "decode ''3:moo'' = Inr (BBytes ''moo'')"
    by code_simp+
  with dict_end [of "[(''3:cow'', ''3:moo'')]"] show ?thesis by simp
qed

lemma unterminated_nested: "unterminated ''li3ed3:cow3:moo'' Unexpected_end_dict"
  using in_list [of "[''i3e'']" "''d3:cow3:moo''", OF _ unterminated_d_cow_moo] decode_three
  by simp

text \<open>
  Claim C7. When the input ends inside a list or a dictionary where an iteration of the loop
  starts, that is after an \<^verbatim>\<open>l\<close> and complete elements or after a \<^verbatim>\<open>d\<close> and complete pairs,
  at any depth of nesting, \<^verbatim>\<open>decode\<close> fails with the error for the unexpected end of the
  data in that container. \<^verbatim>\<open>li3e\<close> and \<^verbatim>\<open>d3:cow3:moo\<close> are such inputs.
\<close>

theorem unterminated_container_error:
  "decode ''li3e'' = Inl (ValueError Unexpected_end_list) \<and>
   decode ''d3:cow3:moo'' = Inl (ValueError Unexpected_end_dict) \<and>
   (\<forall>x m. unterminated x m \<longrightarrow>
      decode x = Inl (ValueError m) \<and> (m = Unexpected_end_list \<or> m = Unexpected_end_dict))"
  using decode_li3e decode_d_cow_moo unterminated_decode unterminated_message by blast

theorem unterminated_container_error_witness:
  "unterminated ''li3ed3:cow3:moo'' Unexpected_end_dict \<and>
   decode ''li3ed3:cow3:moo'' = Inl (ValueError Unexpected_end_dict) \<and>
   unterminated ''li3e'' Unexpected_end_list \<and>
   decode ''li3e'' = Inl (ValueError Unexpected_end_list)"
  using unterminated_container_error unterminated_nested unterminated_li3e by blast

subsection \<open>The invariant of the cursor\<close>

lemma decode_str_bytes:
  assumes "cursor_inv s" "decode_str s = Inr (b, s')"
  shows "index s + 2 + length b \<le> index s' \<and>
    b = take (length b) (drop (index s' - length b) (data s))"
proof -
  from assms(2) obtain n s1 s2 where a: "decode_num s = Inr (n, s1)"
    and c: "consume CHR '':'' s1 = Inr s2" and r: "decode_chars (nat n) [] s2 = Inr (b, s')"
    by (auto simp: decode_str_def split: sum.splits)
  from decode_num_inv [OF assms(1) a]
  have s1: "cursor_inv s1" "data s1 = data s" "index s < index s1" by simp_all
  from consume_inv [OF s1(1) c]
  have s2: "cursor_inv s2" "data s2 = data s1" "index s2 = index s1 + 1" by simp_all
  from decode_chars_inv [OF s2(1) r]
  have s': "cursor_inv s'" "data s' = data s2" "index s' = index s2 + nat n"
    "b = take (nat n) (drop (index s2) (data s2))" by simp_all
  from s'(1,2,3) s2(2) s1(2) have "index s2 + nat n \<le> length (data s)"
    by (simp add: cursor_inv_def)
  with s'(4) s2(2) s1(2) have len: "length b = nat n" by simp
  from s1(3) s2(3) s'(3) len have "index s + 2 + length b \<le> index s'" by simp
  moreover from s'(3,4) s2(2) s1(2) len
  have "b = take (length b) (drop (index s' - length b) (data s))" by simp
  ultimately show ?thesis by simp
qed

text \<open>
  Claim C8. The cursor that the constructor builds has the invariant: the lookahead is the
  byte at the index, and it is the end-of-input value exactly when the index is the length of
  the buffer. The two operations that write the fields, \<^verbatim>\<open>_consume\<close> and \<^verbatim>\<open>_decode_char\<close>,
  keep the invariant, leave the buffer as it is and advance the index by one, the byte they
  consume. So do the methods built from them: a digit advances the index by one, the loop
  over the digits by the number of digits it has read, the loop over the bytes of a string by
  the number of bytes asked for, a byte string by its length prefix, the colon and its bytes,
  which are the bytes returned, and every method that returns has advanced the index and kept
  the invariant.
\<close>

theorem cursor_invariant:
  "(\<forall>s. cursor_inv s \<longrightarrow>
      (index s < length (data s) \<longrightarrow> char s = Some (data s ! index s)) \<and>
      (char s = None \<longleftrightarrow> index s = length (data s))) \<and>
   (\<forall>bs s. Decoder bs = Inr s \<longrightarrow> cursor_inv s \<and> data s = bs \<and> index s = 0) \<and>
   (\<forall>c s s'. cursor_inv s \<and> consume c s = Inr s' \<longrightarrow>
      cursor_inv s' \<and> data s' = data s \<and> index s' = index s + 1) \<and>
   (\<forall>s b s'. cursor_inv s \<and> decode_char s = Inr (b, s') \<longrightarrow>
      cursor_inv s' \<and> data s' = data s \<and> index s' = index s + 1 \<and> b = data s ! index s) \<and>
   (\<forall>s d s'. cursor_inv s \<and> decode_digit s = Inr (d, s') \<longrightarrow>
      cursor_inv s' \<and> data s' = data s \<and> index s' = index s + 1) \<and>
   (\<forall>num s num' s'. cursor_inv s \<and> decode_digits num s = Inr (num', s') \<longrightarrow>
      cursor_inv s' \<and> data s' = data s \<and> index s' + length num = index s + length num') \<and>
   (\<forall>n acc s b s'. cursor_inv s \<and> decode_chars n acc s = Inr (b, s') \<longrightarrow>
      cursor_inv s' \<and> data s' = data s \<and> index s' = index s + n \<and>
      b = acc @ take n (drop (index s) (data s))) \<and>
   (\<forall>s n s'. cursor_inv s \<and> decode_num s = Inr (n, s') \<longrightarrow>
      cursor_inv s' \<and> data s' = data s \<and> index s < index s') \<and>
   (\<forall>s n s'. cursor_inv s \<and> decode_snum s = Inr (n, s') \<longrightarrow>
      cursor_inv s' \<and> data s' = data s \<and> index s < index s') \<and>
   (\<forall>s n s'. cursor_inv s \<and> decode_int s = Inr (n, s') \<longrightarrow>
      cursor_inv s' \<and> data s' = data s \<and> index s < index s') \<and>
   (\<forall>s b s'. cursor_inv s \<and> decode_str s = Inr (b, s') \<longrightarrow>
      cursor_inv s' \<and> data s' = data s \<and> index s + 2 + length b \<le> index s' \<and>
      b = take (length b) (drop (index s' - length b) (data s))) \<and>
   (\<forall>s v s'. cursor_inv s \<and> decode_bencode s = Inr (v, s') \<longrightarrow>
      cursor_inv s' \<and> data s' = data s \<and> index s < index s') \<and>
   (\<forall>s v s'. cursor_inv s \<and> decode_dict s = Inr (v, s') \<longrightarrow>
      cursor_inv s' \<and> data s' = data s \<and> index s < index s') \<and>
   (\<forall>s v s'. cursor_inv s \<and> decode_list s = Inr (v, s') \<longrightarrow>
      cursor_inv s' \<and> data s' = data s \<and> index s < index s')"
proof (intro conjI allI impI; (elim conjE)?)
  fix s assume "cursor_inv s" "index s < length (data s)"
  then show "char s = Some (data s ! index s)" by (simp add: cursor_inv_def)
next
  fix s assume "cursor_inv s"
  then show "char s = None \<longleftrightarrow> index s = length (data s)" by (rule cursor_inv_None)
qed (blast dest: Decoder_inv consume_inv decode_char_inv decode_digit_inv decode_digits_inv
      decode_chars_inv decode_num_inv decode_snum_inv decode_int_inv decode_str_inv
      decode_str_bytes decode_inv)+

theorem cursor_invariant_witness:
  "cursor_inv (cursor_at ''4:spam'' 0) \<and>
   decode_str (cursor_at ''4:spam'' 0) = Inr (''spam'', cursor_at ''4:spam'' 6) \<and>
   cursor_inv (cursor_at ''4:spam'' 6) \<and> data (cursor_at ''4:spam'' 6) = ''4:spam'' \<and>
   index (cursor_at ''4:spam'' 0) + 2 + length ''spam'' \<le> index (cursor_at ''4:spam'' 6)"
proof -
  have a: "cursor_inv (cursor_at ''4:spam'' 0)" by (simp add: cursor_inv_cursor_at)
  have b: "decode_str (cursor_at ''4:spam'' 0) = Inr (''spam'', cursor_at ''4:spam'' 6)"
    by code_simp
  from cursor_invariant
  have "\<forall>s b s'. cursor_inv s \<and> decode_str s = Inr (b, s') \<longrightarrow>
      cursor_inv s' \<and> data s' = data s \<and> index s + 2 + length b \<le> index s' \<and>
      b = take (length b) (drop (index s' - length b) (data s))"
    by (elim conjE)
  with a b have "cursor_inv (cursor_at ''4:spam'' 6) \<and>
      data (cursor_at ''4:spam'' 6) = data (cursor_at ''4:spam'' 0) \<and>
      index (cursor_at ''4:spam'' 0) + 2 + length ''spam'' \<le> index (cursor_at ''4:spam'' 6)"
    by blast
  with a b show ?thesis by simp
qed

subsection \<open>Duplicate keys\<close>

lemma decode_duplicate_key: "decode ''d1:a1:b1:a1:ce'' = Inr (BDict [(''a'', BBytes ''c'')])"
  by code_simp

lemma decode_closed_dict_last_wins:
  assumes "kbs \<noteq> []" "list_all2 encodes_pair kbs ps"
  shows "\<exists>d. decode (''d'' @ concat (map (\<lambda>(k, b). k @ b) kbs) @ ''e'') = Inr (BDict d) \<and>
    map_of d = map_of (rev ps) \<and> distinct (map fst d)"
  using decode_closed_dict [OF assms(2,1)]
    foldl_dict_set_map_of [of "[]" ps] foldl_dict_set_distinct [of "[]" ps]
  by simp

text \<open>
  Claim C9. A key that occurs twice in a dictionary is no error: \<^verbatim>\<open>d1:a1:b1:a1:ce\<close> decodes
  to the dictionary with the one key \<^verbatim>\<open>a\<close> and the value \<^verbatim>\<open>c\<close>. In general a \<^verbatim>\<open>d\<close>, at
  least one pair of a complete key and a complete value, and an \<^verbatim>\<open>e\<close> decode to a
  dictionary, whatever keys repeat; each key occurs once in it, and its value is the one of the
  last pair with that key.
\<close>

theorem duplicate_key_last_wins:
  "decode ''d1:a1:b1:a1:ce'' = Inr (BDict [(''a'', BBytes ''c'')]) \<and>
   (\<forall>kbs ps. kbs \<noteq> [] \<and> list_all2 encodes_pair kbs ps \<longrightarrow>
      (\<exists>d. decode (''d'' @ concat (map (\<lambda>(k, b). k @ b) kbs) @ ''e'') = Inr (BDict d) \<and>
         map_of d = map_of (rev ps) \<and> distinct (map fst d)))"
  using decode_duplicate_key decode_closed_dict_last_wins by blast

theorem duplicate_key_last_wins_witness:
  "list_all2 encodes_pair [(''1:a'', ''1:b''), (''1:a'', ''i7e'')]
     [(''a'', BBytes ''b''), (''a'', BInt 7)] \<and>
   (\<exists>d. decode ''d1:a1:b1:ai7ee'' = Inr (BDict d) \<and> map_of d ''a'' = Some (BInt 7))"
proof -
  have k: "decode ''1:a'' = Inr (BBytes ''a'')" and b: "decode ''1:b'' = Inr (BBytes ''b'')"
    and c: "decode ''i7e'' = Inr (BInt 7)"
    by code_simp+
  then have enc: "list_all2 encodes_pair [(''1:a'', ''1:b''), (''1:a'', ''i7e'')]
      [(''a'', BBytes ''b''), (''a'', BInt 7)]"
    by (simp add: encodes_pair_def)
  have ne: "[(''1:a'', ''1:b''), (''1:a'', ''i7e'')] \<noteq> []" by simp
  from duplicate_key_last_wins ne enc
  obtain d where "decode (''d'' @ concat (map (\<lambda>(k, b). k @ b)
        [(''1:a'', ''1:b''), (''1:a'', ''i7e'')]) @ ''e'') = Inr (BDict d)"
    and "map_of d = map_of (rev [(''a'', BBytes ''b''), (''a'', BInt 7)])"
    by blast
  then have "decode ''d1:a1:b1:ai7ee'' = Inr (BDict d) \<and> map_of d ''a'' = Some (BInt 7)"
    by simp
  with enc show ?thesis by blast
qed

end
